theory Spec2Isabelle
  imports Main "HOL-Library.AList" "HOL-Library.Sublist" "HOL-Library.Word"
begin

section \<open>JavaScript values, strings and errors\<close>

text \<open>
  A thrown JavaScript exception (or a rejected promise) is the left summand of a result.
  \<open>TypeError\<close> is what the runtime raises on a property read of \<open>undefined\<close> or on a call
  of something that is not a function; \<open>Error\<close> is \<open>new Error(message)\<close>.
\<close>

datatype js_error = TypeError string | Error string

text \<open>Entries written through \<open>log.info\<close> and \<open>log.error\<close> (debug output is not modelled).\<close>

datatype log_entry = LogInfo string | LogError string "js_error option"

text \<open>\<open>s.startsWith(p)\<close> and \<open>s.includes(p)\<close> on strings.\<close>

fun startsWith :: "string \<Rightarrow> string \<Rightarrow> bool" where
  "startsWith s [] = True"
| "startsWith [] (p # ps) = False"
| "startsWith (c # cs) (p # ps) = (c = p \<and> startsWith cs ps)"

fun includes_str :: "string \<Rightarrow> string \<Rightarrow> bool" where
  "includes_str [] p = (p = [])"
| "includes_str (c # cs) p = (startsWith (c # cs) p \<or> includes_str cs p)"

text \<open>\<open>s.replace(p, r)\<close> with a string pattern: the first occurrence only.\<close>

fun replace_first :: "string \<Rightarrow> string \<Rightarrow> string \<Rightarrow> string" where
  "replace_first [] p r = (if p = [] then r else [])"
| "replace_first (c # cs) p r =
     (if startsWith (c # cs) p then r @ drop (length p) (c # cs)
      else c # replace_first cs p r)"

text \<open>\<open>s.replace(/\<bsol>//g, r)\<close>: every slash is replaced.\<close>

definition replace_slashes :: "string \<Rightarrow> string \<Rightarrow> string" where
  "replace_slashes s r = concat (map (\<lambda>c. if c = CHR ''/'' then r else [c]) s)"

text \<open>\<open>xs.join(sep)\<close>.\<close>

fun join :: "string \<Rightarrow> string list \<Rightarrow> string" where
  "join sep [] = []"
| "join sep [x] = x"
| "join sep (x # y # ys) = x @ sep @ join sep (y # ys)"

section \<open>The per-file compiler (SwcCompiler) and its cache (CompiledFiles)\<close>

text \<open>
  A compiled file is \<open>{ filename, root, ...output }\<close>; of the transform's output only \<open>code\<close>
  is read. \<open>CompiledFiles.groups\<close> is a JavaScript \<open>Map\<close> from root to a \<open>Map\<close> from filename to
  file: an association list in insertion order, where \<open>Map.set\<close> replaces the value of a
  key that is present in place and appends a new key (\<open>AList.update\<close>), and \<open>Map.get\<close> is
  \<open>map_of\<close>.
\<close>

record compiled_file =
  filename :: string
  root :: string
  code :: string

type_synonym build_group = "(string \<times> compiled_file) list"
type_synonym compiled_files = "(string \<times> build_group) list"

definition addFile :: "compiled_file \<Rightarrow> compiled_files \<Rightarrow> compiled_files" where
  "addFile file groups =
     (let grp = (case map_of groups (root file) of None \<Rightarrow> [] | Some g \<Rightarrow> g)
      in AList.update (root file) (AList.update (filename file) file grp) groups)"

text \<open>\<open>CompiledFiles.group\<close>: the first group, in insertion order, that holds the filename.\<close>

fun group' :: "compiled_files \<Rightarrow> string \<Rightarrow> (string \<times> compiled_file list) option" where
  "group' [] fn = None"
| "group' ((r, files) # rest) fn =
     (if map_of files fn \<noteq> None then Some (r, map snd files) else group' rest fn)"

text \<open>
  The project configuration as the compiler reads it: \<open>config.esbuild?.resolveExtensions\<close>
  and \<open>config.ignore\<close>, each of which may be missing.
\<close>

record project_config =
  resolveExtensions :: "string list option"
  ignore :: "string list option"

text \<open>
  What the compiler asks of its surroundings: \<open>findRoot\<close> (throws when no package root
  encloses the path), \<open>projectConfig\<close>, \<open>globby\<close> (patterns, then the \<open>cwd\<close>; absolute paths
  come back), \<open>transformFile\<close> of the requested file in a root, \<open>fs.writeFileSync\<close> and the
  platform test. They are parameters of the model; one environment stands for the file
  system during one operation.
\<close>

record fs_env =
  findRoot :: "string \<Rightarrow> string option"
  projectConfig :: "string \<Rightarrow> js_error + project_config"
  globby :: "string list \<Rightarrow> string \<Rightarrow> string list"
  transformFile :: "string \<Rightarrow> string \<Rightarrow> js_error + string"
  writeFileSync :: "string \<Rightarrow> string \<Rightarrow> js_error option"
  win32 :: bool

definition DefaultExtensions :: "string list" where
  "DefaultExtensions = [''.tsx'', ''.ts'', ''.jsx'', ''.mjs'', ''.cjs'', ''.js'']"

text \<open>An empty array is truthy in JavaScript, so only a missing list falls back to the default.\<close>

definition fileGlobPatterns :: "project_config \<Rightarrow> string list" where
  "fileGlobPatterns config =
     (let extensions = (case resolveExtensions config of None \<Rightarrow> DefaultExtensions | Some es \<Rightarrow> es)
      in [''**/*{'' @ join '','' extensions @ ''}''])"

definition ignoreFileGlobPatterns :: "project_config \<Rightarrow> string list" where
  "ignoreFileGlobPatterns config =
     [''!node_modules'', ''!**/*.d.ts''] @
     map (\<lambda>i. ''!'' @ i) (case ignore config of None \<Rightarrow> [] | Some is \<Rightarrow> is)"

definition find_root_error :: js_error where
  "find_root_error = Error ''package.json not found in path''"

definition getModule :: "fs_env \<Rightarrow> string \<Rightarrow> js_error + (string \<times> string list \<times> project_config)" where
  "getModule env fn =
     (case findRoot env fn of
        None \<Rightarrow> Inl find_root_error
      | Some r \<Rightarrow>
          (case projectConfig env r of
             Inl e \<Rightarrow> Inl e
           | Inr config \<Rightarrow>
               (let globs = fileGlobPatterns config @ ignoreFileGlobPatterns config;
                    fileNames = globby env globs r;
                    fileNames' = (if win32 env then map (\<lambda>f. replace_slashes f [CHR 0x5C]) fileNames
                                  else fileNames)
                in Inr (r, fileNames', config))))"

text \<open>The loop of \<open>isFilenameIgnored\<close> over the ignore patterns: the first one that alone removes the file.\<close>

fun first_ignoring :: "fs_env \<Rightarrow> string \<Rightarrow> string list \<Rightarrow> string \<Rightarrow> string list \<Rightarrow> string option" where
  "first_ignoring env r includeGlobs fn [] = None"
| "first_ignoring env r includeGlobs fn (ignoreGlob # rest) =
     (let withThisIgnore = globby env (includeGlobs @ [ignoreGlob]) r
      in if fn \<notin> set withThisIgnore then Some ignoreGlob
         else first_ignoring env r includeGlobs fn rest)"

text \<open>\<open>isFilenameIgnored\<close>: \<open>Inr None\<close> is the source's \<open>false\<close>, \<open>Inr (Some g)\<close> the pattern \<open>g\<close>.\<close>

definition isFilenameIgnored :: "fs_env \<Rightarrow> string \<Rightarrow> js_error + string option" where
  "isFilenameIgnored env fn =
     (case findRoot env fn of
        None \<Rightarrow> Inl find_root_error
      | Some r \<Rightarrow>
          (case projectConfig env r of
             Inl e \<Rightarrow> Inl e
           | Inr config \<Rightarrow>
               (let includeGlobs = fileGlobPatterns config;
                    ignoreGlobs = ignoreFileGlobPatterns config;
                    actual = globby env (includeGlobs @ ignoreGlobs) r;
                    all = globby env includeGlobs r
                in if fn \<notin> set actual \<and> fn \<in> set all
                   then Inr (first_ignoring env r includeGlobs fn ignoreGlobs)
                   else Inr None)))"

text \<open>
  An example project for \<open>isFilenameIgnored\<close>: the root \<open>/p\<close> with the sources \<open>/p/a.ts\<close> and
  \<open>/p/gen/b.ts\<close> and the configured ignore pattern \<open>gen\<close>. Its \<open>globby\<close> drops \<open>/p/gen/b.ts\<close>
  whenever the pattern \<open>!gen\<close> is among the patterns.
\<close>

definition ignore_env :: fs_env where
  "ignore_env =
     \<lparr> findRoot = (\<lambda>p. if startsWith p ''/p/'' then Some ''/p'' else None),
       projectConfig = (\<lambda>r. Inr \<lparr> resolveExtensions = None, ignore = Some [''gen''] \<rparr>),
       globby = (\<lambda>pats r. if ''!gen'' \<in> set pats then [''/p/a.ts''] else [''/p/a.ts'', ''/p/gen/b.ts'']),
       transformFile = (\<lambda>f r. Inr (''compiled '' @ f)),
       writeFileSync = (\<lambda>p c. None),
       win32 = False \<rparr>"

text \<open>
  The compiler's state: the cache and what it logged. \<open>invalidateBuildSet\<close> replaces the
  cache by a new, empty one.
\<close>

record swc_compiler =
  compiledFiles :: compiled_files
  swcLog :: "log_entry list"

definition new_SwcCompiler :: swc_compiler where
  "new_SwcCompiler = \<lparr> compiledFiles = [], swcLog = [] \<rparr>"

definition invalidateBuildSet :: "swc_compiler \<Rightarrow> swc_compiler" where
  "invalidateBuildSet st = st\<lparr> compiledFiles := [] \<rparr>"

text \<open>
  \<open>buildFile\<close>: transform the file, and record it under the root it was given. The
  \<open>then\<close> callback writes the output of two files named in the source to \<open>./tmp\<close> and
  logs it; a write that throws rejects the build like a failed transform.
\<close>

definition buildFile ::
  "fs_env \<Rightarrow> string \<Rightarrow> string \<Rightarrow> swc_compiler \<Rightarrow> (js_error + compiled_file) \<times> swc_compiler" where
  "buildFile env fn r st =
     (case transformFile env fn r of
        Inl e \<Rightarrow> (Inl e, st)
      | Inr out \<Rightarrow>
          (let dbg = (includes_str fn ''SimpleTestTreeRoot.ts'' \<or> includes_str fn ''editModeOnly.ts'')
           in case (if dbg then writeFileSync env (''./tmp/'' @ replace_slashes fn ''__'') out else None) of
                Some e \<Rightarrow> (Inl e, st)
              | None \<Rightarrow>
                  (let file = \<lparr> filename = fn, root = r, code = out \<rparr>
                   in (Inr file,
                       st\<lparr> compiledFiles := addFile file (compiledFiles st),
                           swcLog := swcLog st @ (if dbg then [LogInfo out] else []) \<rparr>))))"

text \<open>
  \<open>Promise.all(fileNames.map(f => this.buildFile(f, root)))\<close>: every build runs, each
  that succeeds adds its file, and the promise rejects with an error of a build that
  failed (here the first in the list; the files are added in the list's order).
\<close>

fun buildFiles :: "fs_env \<Rightarrow> string list \<Rightarrow> string \<Rightarrow> swc_compiler \<Rightarrow> js_error option \<times> swc_compiler" where
  "buildFiles env [] r st = (None, st)"
| "buildFiles env (f # fs) r st =
     (case buildFile env f r st of
        (res, st') \<Rightarrow>
          (case buildFiles env fs r st' of
             (e, st'') \<Rightarrow> ((case res of Inl e1 \<Rightarrow> Some e1 | Inr _ \<Rightarrow> e), st'')))"

text \<open>\<open>buildGroup\<close>, with \<open>reportErrors\<close> around the builds: their error is logged and dropped.\<close>

definition buildGroup :: "fs_env \<Rightarrow> string \<Rightarrow> swc_compiler \<Rightarrow> js_error option \<times> swc_compiler" where
  "buildGroup env fn st =
     (case getModule env fn of
        Inl e \<Rightarrow> (Some e, st)
      | Inr (r, fileNames, config) \<Rightarrow>
          (case buildFiles env fileNames r st of
             (None, st') \<Rightarrow> (None, st')
           | (Some e, st') \<Rightarrow> (None, st'\<lparr> swcLog := swcLog st' @ [LogError [] (Some e)] \<rparr>)))"

definition compile ::
  "fs_env \<Rightarrow> string \<Rightarrow> swc_compiler \<Rightarrow> (js_error + (string \<times> compiled_file list) option) \<times> swc_compiler" where
  "compile env fn st =
     (case group' (compiledFiles st) fn of
        Some existingGroup \<Rightarrow>
          (case buildFile env fn (fst existingGroup) st of
             (Inl e, st') \<Rightarrow> (Inl e, st')
           | (Inr _, st') \<Rightarrow> (Inr (group' (compiledFiles st') fn), st'))
      | None \<Rightarrow>
          (case buildGroup env fn st of
             (Some e, st') \<Rightarrow> (Inl e, st')
           | (None, st') \<Rightarrow> (Inr (group' (compiledFiles st') fn), st')))"

definition missingDestination :: "fs_env \<Rightarrow> string \<Rightarrow> js_error + string" where
  "missingDestination env fn =
     (case isFilenameIgnored env fn of
        Inl e \<Rightarrow> Inl e
      | Inr ignorePattern \<Rightarrow>
          (case ignorePattern of
             Some p \<Rightarrow>
               Inr (''File '' @ fn @
                    '' is imported but not being built because it is explicitly ignored in the esbuild-dev project config. It is being ignored by the provided glob pattern '' @
                    [CHR 0x27] @ p @ [CHR 0x27] @
                    '', remove this pattern from the project config or don'' @ [CHR 0x27] @
                    ''t import this file to fix.'')
           | None \<Rightarrow>
               Inr (''Built output for file '' @ fn @ '' not found. Is it outside the project directory?'')))"

text \<open>\<open>fileGroup\<close>: the code of every file of the group, keyed by filename.\<close>

definition fileGroup :: "fs_env \<Rightarrow> string \<Rightarrow> swc_compiler \<Rightarrow> js_error + (string \<times> string) list" where
  "fileGroup env fn st =
     (case group' (compiledFiles st) fn of
        None \<Rightarrow> (case missingDestination env fn of Inl e \<Rightarrow> Inl e | Inr msg \<Rightarrow> Inl (Error msg))
      | Some g \<Rightarrow> Inr (foldl (\<lambda>contents file. AList.update (filename file) (code file) contents) [] (snd g)))"

text \<open>
  The operations the reload controller and the server run on the compiler. The class has
  no \<open>rebuild\<close> method, so calling it raises a \<open>TypeError\<close> and leaves the cache as it is.
  Each operation runs to its end before the next one begins, in one file system.
\<close>

datatype swc_op = Compile string | InvalidateBuildSet | Rebuild

definition rebuild :: "swc_compiler \<Rightarrow> js_error option \<times> swc_compiler" where
  "rebuild st = (Some (TypeError ''this.compiler.rebuild is not a function''), st)"

fun apply_op :: "fs_env \<Rightarrow> swc_compiler \<Rightarrow> swc_op \<Rightarrow> swc_compiler" where
  "apply_op env st (Compile fn) = snd (compile env fn st)"
| "apply_op env st InvalidateBuildSet = invalidateBuildSet st"
| "apply_op env st Rebuild = snd (rebuild st)"

definition run_ops :: "fs_env \<Rightarrow> swc_op list \<Rightarrow> swc_compiler" where
  "run_ops env ops = foldl (apply_op env) new_SwcCompiler ops"

text \<open>The roots of the groups that hold a file, in the cache's order.\<close>

definition groups_containing :: "compiled_files \<Rightarrow> string \<Rightarrow> string list" where
  "groups_containing groups fn = map fst (filter (\<lambda>(r, files). map_of files fn \<noteq> None) groups)"

text \<open>
  Package roots do not nest inside what is enumerated: every file that \<open>getModule\<close>
  enumerates under a root has that root as its nearest package root.
\<close>

definition no_nesting :: "fs_env \<Rightarrow> bool" where
  "no_nesting env =
     (\<forall>fn r fileNames config. getModule env fn = Inr (r, fileNames, config) \<longrightarrow>
        (\<forall>f \<in> set fileNames. findRoot env f = Some r))"

text \<open>
  A workspace whose package \<open>/a\<close> holds \<open>/a/x.ts\<close> and a nested package \<open>/a/b\<close> with
  \<open>/a/b/y.ts\<close>: the enumeration under \<open>/a\<close> reaches into \<open>/a/b\<close>.
\<close>

definition nested_env :: fs_env where
  "nested_env =
     \<lparr> findRoot = (\<lambda>p. if startsWith p ''/a/b/'' then Some ''/a/b''
                        else if startsWith p ''/a/'' then Some ''/a'' else None),
       projectConfig = (\<lambda>r. Inr \<lparr> resolveExtensions = None, ignore = None \<rparr>),
       globby = (\<lambda>pats r. if r = ''/a'' then [''/a/x.ts'', ''/a/b/y.ts'']
                           else if r = ''/a/b'' then [''/a/b/y.ts''] else []),
       transformFile = (\<lambda>f r. Inr (''compiled '' @ f)),
       writeFileSync = (\<lambda>p c. None),
       win32 = False \<rparr>"

text \<open>A single package \<open>/p\<close> with the two sources \<open>/p/a.ts\<close> and \<open>/p/b.ts\<close>.\<close>

definition two_file_env :: fs_env where
  "two_file_env =
     \<lparr> findRoot = (\<lambda>p. if startsWith p ''/p/'' then Some ''/p'' else None),
       projectConfig = (\<lambda>r. Inr \<lparr> resolveExtensions = None, ignore = None \<rparr>),
       globby = (\<lambda>pats r. if r = ''/p'' then [''/p/a.ts'', ''/p/b.ts''] else []),
       transformFile = (\<lambda>f r. Inr (''compiled '' @ f)),
       writeFileSync = (\<lambda>p c. None),
       win32 = False \<rparr>"




text \<open>
  The invariant of the cache when package roots do not nest: the roots are distinct keys,
  and every file recorded under a root has that root as its nearest package root.
\<close>

definition cache_inv :: "fs_env \<Rightarrow> compiled_files \<Rightarrow> bool" where
  "cache_inv env groups =
     (distinct (map fst groups) \<and>
      (\<forall>r files fn cf. (r, files) \<in> set groups \<longrightarrow> (fn, cf) \<in> set files \<longrightarrow>
         findRoot env fn = Some r))"


section \<open>The supervisor and its child processes\<close>

text \<open>
  A \<open>ChildProcess\<close> object of the host runtime, as far as the supervisor uses it.
  \<open>running\<close>: the process has not exited. \<open>killed\<close> is the runtime's property of that
  name: it is set when \<open>kill\<close> has delivered a signal to the process, whatever the process
  does with the signal, and it says nothing about whether the process has exited.
  \<open>received\<close> lists the signals delivered. The objects live in a store and are referred
  to by their index, since \<open>stop\<close> keeps a reference to one while \<open>restart\<close> may replace
  \<open>this.process\<close>.
\<close>

datatype signal = SIGTERM | SIGKILL

record child_process =
  spawn_argv :: "string list"
  running :: bool
  killed :: bool
  received :: "signal list"

record supervisor =
  argv :: "string list"
  process :: "nat option"
  children :: "child_process list"

definition new_Supervisor :: "string list \<Rightarrow> supervisor" where
  "new_Supervisor av = \<lparr> argv = av, process = None, children = [] \<rparr>"

text \<open>
  \<open>child.kill(signal)\<close>: a signal reaches a process that has not exited, and then
  \<open>killed\<close> becomes true; on a process that has exited nothing happens.
\<close>

definition kill :: "nat \<Rightarrow> signal \<Rightarrow> child_process list \<Rightarrow> child_process list" where
  "kill ref sig cs =
     (if ref < length cs \<and> running (cs ! ref)
      then cs[ref := (cs ! ref)\<lparr> killed := True, received := received (cs ! ref) @ [sig] \<rparr>]
      else cs)"

text \<open>The process exits (by itself, or because a signal ended it).\<close>

definition child_exits :: "nat \<Rightarrow> supervisor \<Rightarrow> supervisor" where
  "child_exits ref sv =
     (if ref < length (children sv)
      then sv\<lparr> children := (children sv)[ref := (children sv ! ref)\<lparr> running := False \<rparr>] \<rparr>
      else sv)"

text \<open>
  \<open>stop()\<close>: the synchronous part, which returns the reference the timer callback has
  captured, and the callback that runs 5000 ms later on whatever the state is by then.
\<close>

definition stop :: "supervisor \<Rightarrow> supervisor \<times> nat option" where
  "stop sv =
     (let sv' = (case process sv of
                   Some ref \<Rightarrow> sv\<lparr> children := kill ref SIGTERM (children sv) \<rparr>
                 | None \<Rightarrow> sv)
      in (sv', process sv))"

definition stop_timeout :: "nat option \<Rightarrow> supervisor \<Rightarrow> js_error + supervisor" where
  "stop_timeout captured sv =
     (case captured of
        None \<Rightarrow> Inl (TypeError ''Cannot read properties of undefined (reading killed)'')
      | Some ref \<Rightarrow>
          (if \<not> killed (children sv ! ref)
           then Inr (sv\<lparr> children := kill ref SIGKILL (children sv) \<rparr>)
           else Inr sv))"

definition restart :: "supervisor \<Rightarrow> supervisor" where
  "restart sv =
     (let cs = (case process sv of Some ref \<Rightarrow> kill ref SIGKILL (children sv) | None \<Rightarrow> children sv)
      in sv\<lparr> process := Some (length cs),
             children := cs @ [\<lparr> spawn_argv = argv sv, running = True, killed = False, received = [] \<rparr>] \<rparr>)"

section \<open>The reload controller (Project)\<close>

record reload_batch =
  paths :: "string list"
  invalidate :: bool

definition empty_batch :: reload_batch where
  "empty_batch = \<lparr> paths = [], invalidate = False \<rparr>"

text \<open>The decimal numeral of a number, as a template string prints it.\<close>

definition digit :: "nat \<Rightarrow> char" where
  "digit d = ''0123456789'' ! d"

fun show_nat :: "nat \<Rightarrow> string" where
  "show_nat n =
     (if n < 10 then [digit n]
      else show_nat (n div 10) @ [digit (n mod 10)])"

text \<open>\<open>compact(xs).join("")\<close>: the falsy entries (\<open>false\<close>, here \<open>None\<close>, and the empty string) are dropped.\<close>

definition compact_join :: "string option list \<Rightarrow> string" where
  "compact_join xs = concat (map (\<lambda>x. case x of None \<Rightarrow> [] | Some s \<Rightarrow> s) xs)"

text \<open>
  The summary line of \<open>reloadNow\<close>. Reading \<open>paths[0]\<close> of an empty list gives
  \<open>undefined\<close>, and calling \<open>replace\<close> on it throws.
\<close>

definition reload_message :: "string \<Rightarrow> reload_batch \<Rightarrow> js_error + string" where
  "reload_message workspaceRoot b =
     (case paths b of
        [] \<Rightarrow> Inl (TypeError ''Cannot read properties of undefined (reading replace)'')
      | p0 # rest \<Rightarrow>
          Inr (compact_join
            [Some (replace_first p0 workspaceRoot []),
             (if length (paths b) > 1 then Some ('' and '' @ show_nat (length (paths b) - 1) @ '' others'') else None),
             Some '' changed, '',
             (if invalidate b then Some ''reinitializing and '' else None),
             Some ''restarting ...'']))"

declare show_nat.simps [simp del]

text \<open>
  \<open>reloadNow\<close> and \<open>invalidateBuildSetAndReload\<close> are asynchronous: each invocation (a
  \<^emph>\<open>flush\<close>) runs up to an \<open>await\<close>, and goes on when the awaited call of the compiler
  settles; other handlers run in between. A flush is therefore a small state machine.
  Its stage says which \<open>await\<close> it stands at or how it ended; \<open>cleared\<close> is the batch it took
  over when it reset \<open>currentBatch\<close> (none for \<open>invalidateBuildSetAndReload\<close>), and
  \<open>flag\<close> is its local \<open>invalidate\<close> (always set for \<open>invalidateBuildSetAndReload\<close>).
  The compiler is the \<open>Compiler\<close> interface, whichever backend is behind it: its calls
  settle when the surroundings say so.
\<close>

datatype flush_stage =
    RejectedAtStart js_error
  | AwaitInvalidate
  | InvalidateRejected js_error
  | AwaitRebuild
  | RebuildRejected js_error
  | Restarted

record flush =
  cleared :: "reload_batch option"
  flag :: bool
  stage :: flush_stage

text \<open>What a flush does, in the order it does it; the history pairs each with the flush's number.\<close>

datatype flush_event =
    BatchCleared reload_batch
  | InvalidateCalled
  | InvalidateDone
  | RebuildCalled
  | RebuildDone
  | RestartCalled

record project =
  workspaceRoot :: string
  currentBatch :: reload_batch
  debouncePending :: bool
  flushes :: "flush list"
  projectLog :: "log_entry list"
  history :: "(nat \<times> flush_event) list"
  supervisorOf :: supervisor

definition new_Project :: "string \<Rightarrow> supervisor \<Rightarrow> project" where
  "new_Project wr sv =
     \<lparr> workspaceRoot = wr, currentBatch = empty_batch, debouncePending = False, flushes = [],
       projectLog = [], history = [], supervisorOf = sv \<rparr>"

text \<open>
  \<open>enqueueReload\<close>; the call of \<open>debouncedReload\<close> starts the 15 ms timer or starts it
  anew, so that afterwards one invocation of \<open>reloadNow\<close> is pending.
\<close>

definition enqueueReload :: "string \<Rightarrow> bool \<Rightarrow> project \<Rightarrow> project" where
  "enqueueReload path requiresInvalidation p =
     p\<lparr> currentBatch :=
          \<lparr> paths = paths (currentBatch p) @ [path],
            invalidate = (invalidate (currentBatch p) \<or> requiresInvalidation) \<rparr>,
        debouncePending := True \<rparr>"

text \<open>
  \<open>reloadNow\<close> up to its first \<open>await\<close>: the summary line (which throws on an empty
  batch, before anything else happens), the snapshot of the flag, the reset of the batch,
  and the call of \<open>invalidateBuildSet\<close> or, without the flag, of \<open>rebuild\<close>.
\<close>

definition reloadNow :: "project \<Rightarrow> project" where
  "reloadNow p =
     (let k = length (flushes p) in
      case reload_message (workspaceRoot p) (currentBatch p) of
        Inl e \<Rightarrow> p\<lparr> flushes := flushes p @ [\<lparr> cleared = None, flag = False, stage = RejectedAtStart e \<rparr>] \<rparr>
      | Inr message \<Rightarrow>
          (let b = currentBatch p; snap = invalidate b
           in p\<lparr> projectLog := projectLog p @ [LogInfo message],
                 currentBatch := empty_batch,
                 flushes := flushes p @
                   [\<lparr> cleared = Some b, flag = snap,
                      stage = (if snap then AwaitInvalidate else AwaitRebuild) \<rparr>],
                 history := history p @
                   [(k, BatchCleared b), (k, if snap then InvalidateCalled else RebuildCalled)] \<rparr>))"

text \<open>\<open>invalidateBuildSetAndReload\<close> up to its first \<open>await\<close>.\<close>

definition invalidateBuildSetAndReload :: "project \<Rightarrow> project" where
  "invalidateBuildSetAndReload p =
     (let k = length (flushes p)
      in p\<lparr> flushes := flushes p @ [\<lparr> cleared = None, flag = True, stage = AwaitInvalidate \<rparr>],
            history := history p @ [(k, InvalidateCalled)] \<rparr>)"

definition set_stage :: "nat \<Rightarrow> flush_stage \<Rightarrow> project \<Rightarrow> project" where
  "set_stage k s p = p\<lparr> flushes := (flushes p)[k := (flushes p ! k)\<lparr> stage := s \<rparr>] \<rparr>"

text \<open>After \<open>await this.compiler.invalidateBuildSet()\<close>: call \<open>rebuild\<close>.\<close>

definition after_invalidate :: "nat \<Rightarrow> project \<Rightarrow> project" where
  "after_invalidate k p =
     set_stage k AwaitRebuild (p\<lparr> history := history p @ [(k, InvalidateDone), (k, RebuildCalled)] \<rparr>)"

text \<open>After \<open>await this.compiler.rebuild()\<close>: \<open>this.supervisor.restart()\<close>.\<close>

definition after_rebuild :: "nat \<Rightarrow> project \<Rightarrow> project" where
  "after_rebuild k p =
     set_stage k Restarted
       (p\<lparr> history := history p @ [(k, RebuildDone), (k, RestartCalled)],
           supervisorOf := restart (supervisorOf p) \<rparr>)"

text \<open>
  What can happen to the controller. The debounced function fires only while an
  invocation is pending (a trailing-edge debounce invokes once per burst of calls).
  A step that is not possible in the state gives \<open>None\<close>.
\<close>

datatype project_input =
    EnqueueReload string bool
  | DebounceFires
  | InvalidateBuildSetAndReload
  | InvalidateResolves nat
  | InvalidateRejects nat js_error
  | RebuildResolves nat
  | RebuildRejects nat js_error

definition at_stage :: "nat \<Rightarrow> flush_stage \<Rightarrow> project \<Rightarrow> bool" where
  "at_stage k s p = (k < length (flushes p) \<and> stage (flushes p ! k) = s)"

fun project_step :: "project \<Rightarrow> project_input \<Rightarrow> project option" where
  "project_step p (EnqueueReload path req) = Some (enqueueReload path req p)"
| "project_step p DebounceFires =
     (if debouncePending p then Some (reloadNow (p\<lparr> debouncePending := False \<rparr>)) else None)"
| "project_step p InvalidateBuildSetAndReload = Some (invalidateBuildSetAndReload p)"
| "project_step p (InvalidateResolves k) =
     (if at_stage k AwaitInvalidate p then Some (after_invalidate k p) else None)"
| "project_step p (InvalidateRejects k e) =
     (if at_stage k AwaitInvalidate p then Some (set_stage k (InvalidateRejected e) p) else None)"
| "project_step p (RebuildResolves k) =
     (if at_stage k AwaitRebuild p then Some (after_rebuild k p) else None)"
| "project_step p (RebuildRejects k e) =
     (if at_stage k AwaitRebuild p then Some (set_stage k (RebuildRejected e) p) else None)"

fun project_run :: "project \<Rightarrow> project_input list \<Rightarrow> project option" where
  "project_run p [] = Some p"
| "project_run p (i # is) =
     (case project_step p i of None \<Rightarrow> None | Some p' \<Rightarrow> project_run p' is)"









text \<open>
  What holds of the debounce: while an invocation is pending the batch has a path, and no
  flush has failed on the summary line.
\<close>

definition debounce_inv :: "project \<Rightarrow> bool" where
  "debounce_inv p =
     ((debouncePending p \<longrightarrow> paths (currentBatch p) \<noteq> []) \<and>
      (\<forall>f \<in> set (flushes p). \<forall>e. stage f \<noteq> RejectedAtStart e))"

section \<open>The IPC server's routes\<close>

text \<open>The values handed to \<open>reply.json\<close>.\<close>

datatype json = JUndefined | JString string | JObject "(string \<times> json) list"

text \<open>
  The compiler behind the \<open>Compiler\<close> interface, as the server uses it: \<open>compile\<close> may
  throw and may change the compiler's state either way; \<open>fileGroup\<close> returns the code of
  the group's files or throws.
\<close>

record 'c compiler_ops =
  op_compile :: "string \<Rightarrow> 'c \<Rightarrow> js_error option \<times> 'c"
  op_fileGroup :: "string \<Rightarrow> 'c \<Rightarrow> js_error + (string \<times> string) list"

definition swc_ops :: "fs_env \<Rightarrow> swc_compiler compiler_ops" where
  "swc_ops env =
     \<lparr> op_compile = (\<lambda>fn st. case compile env fn st of
                                 (Inl e, st') \<Rightarrow> (Some e, st')
                               | (Inr g, st') \<Rightarrow> (None, st')),
       op_fileGroup = fileGroup env \<rparr>"

text \<open>
  What the routes read and change of the project: the compiler, the watcher
  (\<open>project.watcher\<close> is undefined unless the file system watcher was started; otherwise
  the paths added to it so far) and the log.
\<close>

record 'c server_project =
  compilerState :: 'c
  watcher :: "string list option"
  serverLog :: "log_entry list"

text \<open>\<open>project.watcher?.add(filename)\<close>.\<close>

definition watcher_add :: "string \<Rightarrow> string list option \<Rightarrow> string list option" where
  "watcher_add fn w = (case w of None \<Rightarrow> None | Some ps \<Rightarrow> Some (ps @ [fn]))"

text \<open>The \<open>compile\<close> closure of \<open>startIPCServer\<close>: \<open>None\<close> is the \<open>undefined\<close> it returns after the \<open>catch\<close>.\<close>

definition ipc_compile ::
  "'c compiler_ops \<Rightarrow> string \<Rightarrow> 'c server_project \<Rightarrow> (string \<times> string) list option \<times> 'c server_project" where
  "ipc_compile ops fn s =
     (case op_compile ops fn (compilerState s) of
        (Some e, c') \<Rightarrow>
          (None, s\<lparr> compilerState := c',
                    serverLog := serverLog s @ [LogError (''Error compiling file '' @ fn @ '':'') (Some e)] \<rparr>)
      | (None, c') \<Rightarrow>
          (let s1 = s\<lparr> compilerState := c', watcher := watcher_add fn (watcher s) \<rparr>
           in case op_fileGroup ops fn c' of
                Inl e \<Rightarrow>
                  (None, s1\<lparr> serverLog := serverLog s1 @ [LogError (''Error compiling file '' @ fn @ '':'') (Some e)] \<rparr>)
              | Inr contents \<Rightarrow> (Some contents, s1)))"

text \<open>The route \<open>/compile\<close>: \<open>reply.json({ filenames: results })\<close>.\<close>

definition compile_route :: "'c compiler_ops \<Rightarrow> string \<Rightarrow> 'c server_project \<Rightarrow> json \<times> 'c server_project" where
  "compile_route ops body s =
     (case ipc_compile ops body s of
        (results, s') \<Rightarrow>
          (JObject [(''filenames'',
                     (case results of
                        None \<Rightarrow> JUndefined
                      | Some contents \<Rightarrow> JObject (map (\<lambda>(k, v). (k, JString v)) contents)))],
           s'))"

text \<open>The route \<open>/file-required\<close>: every filename of the body goes to the watcher.\<close>

definition file_required_route :: "string list \<Rightarrow> 'c server_project \<Rightarrow> json \<times> 'c server_project" where
  "file_required_route body s =
     (JObject [(''status'', JString ''ok'')],
      s\<lparr> watcher := foldl (\<lambda>w fn. watcher_add fn w) (watcher s) body \<rparr>)"

text \<open>
  The other way a required file reaches the watcher: the handler of the supervisor's
  \<open>message\<close> event in \<open>startFilesystemWatcher\<close>, on the watcher it has just created.
  \<open>value.require\<close> is a filename or missing.
\<close>

definition on_supervisor_message :: "string option \<Rightarrow> string list \<Rightarrow> string list" where
  "on_supervisor_message req w =
     (case req of
        None \<Rightarrow> w
      | Some fn \<Rightarrow> if fn \<noteq> [] \<and> \<not> includes_str fn ''node_modules'' then w @ [fn] else w)"

text \<open>A reply that carries an error: an object with a \<open>kind\<close> and a \<open>message\<close>.\<close>

definition error_body :: "json \<Rightarrow> bool" where
  "error_body j =
     (case j of
        JObject members \<Rightarrow> map_of members ''kind'' \<noteq> None \<and> map_of members ''message'' \<noteq> None
      | _ \<Rightarrow> False)"

text \<open>A package \<open>/p\<close> whose source \<open>/p/a.ts\<close> does not transform.\<close>

definition broken_env :: fs_env where
  "broken_env =
     \<lparr> findRoot = (\<lambda>p. if startsWith p ''/p/'' then Some ''/p'' else None),
       projectConfig = (\<lambda>r. Inr \<lparr> resolveExtensions = None, ignore = None \<rparr>),
       globby = (\<lambda>pats r. if r = ''/p'' then [''/p/a.ts''] else []),
       transformFile = (\<lambda>f r. Inl (Error ''Unexpected token'')),
       writeFileSync = (\<lambda>p c. None),
       win32 = False \<rparr>"

definition new_server_project :: "'c \<Rightarrow> 'c server_project" where
  "new_server_project c = \<lparr> compilerState = c, watcher = Some [], serverLog = [] \<rparr>"

section \<open>The synchronous bridge (SyncWorker)\<close>

text \<open>
  Values that cross the channel (arguments, results, thrown errors). \<open>truthy\<close> is the
  test of \<open>if (response.error)\<close>.
\<close>

datatype js_value = JsUndefined | JsNull | JsBool bool | JsNumber int | JsString string | JsObject string

fun truthy :: "js_value \<Rightarrow> bool" where
  "truthy JsUndefined = False"
| "truthy JsNull = False"
| "truthy (JsBool b) = b"
| "truthy (JsNumber n) = (n \<noteq> 0)"
| "truthy (JsString s) = (s \<noteq> [])"
| "truthy (JsObject d) = True"

text \<open>
  A call, as posted to the worker, and a response, as posted back. \<open>sharedBuffer\<close> is a
  reference into the store of shared buffers. A response \<open>{ id, result }\<close> has no
  \<open>error\<close> (it reads as \<open>undefined\<close>), and \<open>{ id, error }\<close> has no \<open>result\<close>.
\<close>

record sync_call =
  call_id :: nat
  call_args :: "js_value list"
  sharedBuffer :: nat

record sync_response =
  resp_id :: nat
  resp_result :: js_value
  resp_error :: js_value

text \<open>What \<open>Atomics.wait\<close> returned; the last case stands for any other string.\<close>

datatype wait_status = WaitOk | WaitNotEqual | WaitTimedOut | WaitOther string

text \<open>What \<open>call\<close> throws: one of its own internal errors, or the error of the response.\<close>

datatype thrown = Internal string | Rethrown js_value

text \<open>
  \<open>SyncWorker.call\<close> from the return of \<open>Atomics.wait\<close> on: the status, then one
  message taken from the port by \<open>receiveMessageOnPort\<close> (none if the queue is empty),
  its id, its error, its result. The second component is the port's queue afterwards.
\<close>

definition finish_call ::
  "nat \<Rightarrow> wait_status \<Rightarrow> sync_response list \<Rightarrow> (thrown + js_value) \<times> sync_response list" where
  "finish_call sent status inbox =
     (if status = WaitTimedOut
      then (Inl (Internal ''[esbuild-dev] Internal error: timed out communicating with esbuild-dev sync worker thread, likely an esbuild-dev bug''), inbox)
      else if status \<noteq> WaitOk \<and> status \<noteq> WaitNotEqual
      then (Inl (Internal (''[esbuild-dev] Internal error: Atomics.wait() failed with status '' @
                  (case status of WaitOther s \<Rightarrow> s | _ \<Rightarrow> []))), inbox)
      else (case inbox of
              [] \<Rightarrow> (Inl (Internal ''[esbuild-dev] Internal error: no response received from sync worker thread''), [])
            | response # rest \<Rightarrow>
                if resp_id response \<noteq> sent
                then (Inl (Internal (''[esbuild-dev] Internal error: response received from sync worker thread with incorrect id, sent '' @
                            show_nat sent @ '', recieved '' @ show_nat (resp_id response))), rest)
                else if truthy (resp_error response) then (Inl (Rethrown (resp_error response)), rest)
                else (Inr (resp_result response), rest)))"

text \<open>
  The two threads. The main thread is idle, has posted a call and not yet begun to wait,
  sleeps in \<open>Atomics.wait\<close>, or has come back from it with a status. Each \<open>handleCall\<close> of
  the worker runs the implementation, has posted the response, has added to the slot, or
  has notified.
\<close>

datatype main_pc = Idle | Posted sync_call | Waiting sync_call | Woken sync_call wait_status

datatype task_pc = Running | PostedResponse | Added | Notified

text \<open>
  The shared state. \<open>buffers\<close> is the store of \<open>SharedArrayBuffer\<close>s, each seen through
  its \<open>Int32Array\<close> view (8 bytes: two 32-bit slots); a reference is an index into it.
  \<open>worker_inbox\<close> and \<open>main_inbox\<close> are the queues of the two ports. \<open>worker_log\<close> notes
  every step of a task with the task's number, and \<open>outcomes\<close> what each finished call
  returned or threw, both in the order they happened.
\<close>

record bridge =
  idCounter :: nat
  buffers :: "32 word list list"
  worker_inbox :: "sync_call list"
  main_inbox :: "sync_response list"
  main :: main_pc
  tasks :: "(sync_call \<times> task_pc) list"
  worker_log :: "(nat \<times> task_pc) list"
  outcomes :: "(nat \<times> (thrown + js_value)) list"

definition new_bridge :: bridge where
  "new_bridge =
     \<lparr> idCounter = 0, buffers = [], worker_inbox = [], main_inbox = [], main = Idle,
       tasks = [], worker_log = [], outcomes = [] \<rparr>"

definition slot :: "bridge \<Rightarrow> nat \<Rightarrow> 32 word" where
  "slot s ref = buffers s ! ref ! 0"

text \<open>\<open>Atomics.add(view, 0, 1)\<close> on the buffer of a reference; the addition wraps at 32 bits.\<close>

definition atomics_add :: "nat \<Rightarrow> 32 word list list \<Rightarrow> 32 word list list" where
  "atomics_add ref bs = bs[ref := (bs ! ref)[0 := bs ! ref ! 0 + 1]]"

text \<open>The response a task posts: \<open>Inr\<close> the implementation's result, \<open>Inl\<close> what it threw.\<close>

definition response_of :: "sync_call \<Rightarrow> js_value + js_value \<Rightarrow> sync_response" where
  "response_of c r =
     (case r of
        Inr res \<Rightarrow> \<lparr> resp_id = call_id c, resp_result = res, resp_error = JsUndefined \<rparr>
      | Inl err \<Rightarrow> \<lparr> resp_id = call_id c, resp_result = JsUndefined, resp_error = err \<rparr>)"

text \<open>
  The steps of the two threads, interleaved in any order. \<open>MainPost\<close> is \<open>call\<close> up to
  \<open>postMessage\<close>; \<open>MainWait\<close> is the moment \<open>Atomics.wait(view, 0, 0, 60000)\<close> compares
  the slot with 0 and either returns or goes to sleep (atomically); \<open>MainTimeout\<close> is the
  end of the 60000 ms; \<open>MainReceive\<close> is the rest of \<open>call\<close>. \<open>WorkerReceive\<close> is the
  port's listener starting \<open>handleCall\<close>; \<open>WorkerPost i r\<close> is task \<open>i\<close> posting after
  the implementation settled with \<open>r\<close>; \<open>WorkerAdd\<close> and \<open>WorkerNotify\<close> are its two
  atomic operations. A step that is not possible in the state gives \<open>None\<close>.
\<close>

datatype bridge_action =
    MainPost "js_value list"
  | MainWait
  | MainTimeout
  | MainReceive
  | WorkerReceive
  | WorkerPost nat "js_value + js_value"
  | WorkerAdd nat
  | WorkerNotify nat

definition task_at :: "bridge \<Rightarrow> nat \<Rightarrow> task_pc \<Rightarrow> bool" where
  "task_at s i pc = (i < length (tasks s) \<and> snd (tasks s ! i) = pc)"

definition advance :: "nat \<Rightarrow> task_pc \<Rightarrow> bridge \<Rightarrow> bridge" where
  "advance i pc s =
     s\<lparr> tasks := (tasks s)[i := (fst (tasks s ! i), pc)], worker_log := worker_log s @ [(i, pc)] \<rparr>"

fun bridge_step :: "bridge \<Rightarrow> bridge_action \<Rightarrow> bridge option" where
  "bridge_step s (MainPost args) =
     (if main s = Idle
      then (let c = \<lparr> call_id = idCounter s, call_args = args, sharedBuffer = length (buffers s) \<rparr>
            in Some (s\<lparr> idCounter := idCounter s + 1,
                        buffers := buffers s @ [[0, 0]],
                        worker_inbox := worker_inbox s @ [c],
                        main := Posted c \<rparr>))
      else None)"
| "bridge_step s MainWait =
     (case main s of
        Posted c \<Rightarrow>
          Some (s\<lparr> main := (if slot s (sharedBuffer c) \<noteq> 0 then Woken c WaitNotEqual else Waiting c) \<rparr>)
      | _ \<Rightarrow> None)"
| "bridge_step s MainTimeout =
     (case main s of Waiting c \<Rightarrow> Some (s\<lparr> main := Woken c WaitTimedOut \<rparr>) | _ \<Rightarrow> None)"
| "bridge_step s MainReceive =
     (case main s of
        Woken c status \<Rightarrow>
          (case finish_call (call_id c) status (main_inbox s) of
             (out, inbox') \<Rightarrow>
               Some (s\<lparr> main := Idle, main_inbox := inbox',
                         outcomes := outcomes s @ [(call_id c, out)] \<rparr>))
      | _ \<Rightarrow> None)"
| "bridge_step s WorkerReceive =
     (case worker_inbox s of
        [] \<Rightarrow> None
      | c # rest \<Rightarrow> Some (s\<lparr> worker_inbox := rest, tasks := tasks s @ [(c, Running)] \<rparr>))"
| "bridge_step s (WorkerPost i r) =
     (if task_at s i Running
      then Some (advance i PostedResponse
                   (s\<lparr> main_inbox := main_inbox s @ [response_of (fst (tasks s ! i)) r] \<rparr>))
      else None)"
| "bridge_step s (WorkerAdd i) =
     (if task_at s i PostedResponse
      then Some (advance i Added
                   (s\<lparr> buffers := atomics_add (sharedBuffer (fst (tasks s ! i))) (buffers s) \<rparr>))
      else None)"
| "bridge_step s (WorkerNotify i) =
     (if task_at s i Added
      then Some (advance i Notified
                   (s\<lparr> main := (case main s of
                                   Waiting c \<Rightarrow>
                                     if sharedBuffer c = sharedBuffer (fst (tasks s ! i))
                                     then Woken c WaitOk else Waiting c
                                 | m \<Rightarrow> m) \<rparr>))
      else None)"

fun bridge_run :: "bridge \<Rightarrow> bridge_action list \<Rightarrow> bridge option" where
  "bridge_run s [] = Some s"
| "bridge_run s (a # as) = (case bridge_step s a of None \<Rightarrow> None | Some s' \<Rightarrow> bridge_run s' as)"

text \<open>The steps of one task in the log, and every call that was ever posted and not dropped.\<close>

definition task_events :: "nat \<Rightarrow> (nat \<times> task_pc) list \<Rightarrow> task_pc list" where
  "task_events i l = map snd (filter (\<lambda>e. fst e = i) l)"

definition all_calls :: "bridge \<Rightarrow> sync_call list" where
  "all_calls s = map fst (tasks s) @ worker_inbox s"

text \<open>
  Two example runs of one call. In the first the main thread sleeps before the worker
  answers; in the second the worker has finished before the main thread begins to wait.
\<close>

definition answered_run :: "bridge_action list" where
  "answered_run =
     [MainPost [JsString ''/p/a.ts''], MainWait, WorkerReceive,
      WorkerPost 0 (Inr (JsObject ''files'')), WorkerAdd 0, WorkerNotify 0]"

definition early_run :: "bridge_action list" where
  "early_run =
     [MainPost [JsString ''/p/a.ts''], WorkerReceive,
      WorkerPost 0 (Inr (JsObject ''files'')), WorkerAdd 0, WorkerNotify 0]"

definition first_call :: sync_call where
  "first_call = \<lparr> call_id = 0, call_args = [JsString ''/p/a.ts''], sharedBuffer = 0 \<rparr>"

text \<open>
  What holds of the bridge in every state. The log of a task shows the steps it has done,
  in their order. Every call has a buffer of its own in the store; the slot of a call
  that waits in the worker's queue or whose task has not added yet is 0, the slot of a
  task that has added is 1; and the main thread never sleeps on the buffer of a task that
  has notified.
\<close>

fun steps_done :: "task_pc \<Rightarrow> task_pc list" where
  "steps_done Running = []"
| "steps_done PostedResponse = [PostedResponse]"
| "steps_done Added = [PostedResponse, Added]"
| "steps_done Notified = [PostedResponse, Added, Notified]"

definition log_inv :: "bridge \<Rightarrow> bool" where
  "log_inv s =
     ((\<forall>e \<in> set (worker_log s). fst e < length (tasks s)) \<and>
      (\<forall>i < length (tasks s). task_events i (worker_log s) = steps_done (snd (tasks s ! i))))"

definition task_buffer :: "bridge \<Rightarrow> nat \<Rightarrow> nat" where
  "task_buffer s i = sharedBuffer (fst (tasks s ! i))"

definition slot_inv :: "bridge \<Rightarrow> bool" where
  "slot_inv s =
     ((\<forall>c \<in> set (all_calls s). sharedBuffer c < length (buffers s) \<and> buffers s ! sharedBuffer c \<noteq> []) \<and>
      distinct (map sharedBuffer (all_calls s)) \<and>
      (\<forall>c \<in> set (worker_inbox s). slot s (sharedBuffer c) = 0) \<and>
      (\<forall>i < length (tasks s).
         slot s (task_buffer s i) = (if snd (tasks s ! i) = Added \<or> snd (tasks s ! i) = Notified then 1 else 0)) \<and>
      (\<forall>c i. main s = Waiting c \<longrightarrow> i < length (tasks s) \<longrightarrow> task_buffer s i = sharedBuffer c \<longrightarrow>
         snd (tasks s ! i) \<noteq> Notified))"

section \<open>Properties: ignore diagnostics\<close>

lemma first_ignoring_Some:
  "first_ignoring env r inc fn igs = Some g \<Longrightarrow>
     g \<in> set igs \<and> fn \<notin> set (globby env (inc @ [g]) r)"
  by (induction igs) (auto simp: Let_def split: if_splits)

text \<open>
  Claim C9. When \<open>isFilenameIgnored\<close> returns a pattern \<open>g\<close> for a file, then (with the root
  and the configuration the function read) \<open>g\<close> is one of the ignore patterns, globbing with
  the include patterns and \<open>g\<close> alone omits the file, globbing with the include patterns
  alone yields it, and globbing with the include patterns and the full ignore list omits
  it. When the file is not ignored (the full globbing yields it, or the include patterns
  alone do not), the function returns \<open>false\<close>.
\<close>

theorem isFilenameIgnored_diagnostics:
  "(isFilenameIgnored env fn = Inr (Some g) \<longrightarrow>
      (\<exists>r config. findRoot env fn = Some r \<and> projectConfig env r = Inr config \<and>
         g \<in> set (ignoreFileGlobPatterns config) \<and>
         fn \<notin> set (globby env (fileGlobPatterns config @ [g]) r) \<and>
         fn \<in> set (globby env (fileGlobPatterns config) r) \<and>
         fn \<notin> set (globby env (fileGlobPatterns config @ ignoreFileGlobPatterns config) r))) \<and>
   (findRoot env fn = Some r' \<and> projectConfig env r' = Inr config' \<and>
      (fn \<in> set (globby env (fileGlobPatterns config' @ ignoreFileGlobPatterns config') r') \<or>
       fn \<notin> set (globby env (fileGlobPatterns config') r')) \<longrightarrow>
      isFilenameIgnored env fn = Inr None)"
proof (intro conjI impI)
  assume ret: "isFilenameIgnored env fn = Inr (Some g)"
  then obtain r where r: "findRoot env fn = Some r"
    by (auto simp: isFilenameIgnored_def split: option.splits)
  with ret obtain config where c: "projectConfig env r = Inr config"
    by (auto simp: isFilenameIgnored_def split: sum.splits)
  from ret r c have guard:
    "fn \<notin> set (globby env (fileGlobPatterns config @ ignoreFileGlobPatterns config) r) \<and>
     fn \<in> set (globby env (fileGlobPatterns config) r)"
    by (auto simp: isFilenameIgnored_def Let_def split: if_splits)
  with ret r c have
    "first_ignoring env r (fileGlobPatterns config) fn (ignoreFileGlobPatterns config) = Some g"
    by (simp add: isFilenameIgnored_def Let_def)
  from first_ignoring_Some [OF this] guard r c
  show "\<exists>r config. findRoot env fn = Some r \<and> projectConfig env r = Inr config \<and>
         g \<in> set (ignoreFileGlobPatterns config) \<and>
         fn \<notin> set (globby env (fileGlobPatterns config @ [g]) r) \<and>
         fn \<in> set (globby env (fileGlobPatterns config) r) \<and>
         fn \<notin> set (globby env (fileGlobPatterns config @ ignoreFileGlobPatterns config) r)"
    by blast
next
  assume "findRoot env fn = Some r' \<and> projectConfig env r' = Inr config' \<and>
      (fn \<in> set (globby env (fileGlobPatterns config' @ ignoreFileGlobPatterns config') r') \<or>
       fn \<notin> set (globby env (fileGlobPatterns config') r'))"
  then show "isFilenameIgnored env fn = Inr None"
    by (auto simp: isFilenameIgnored_def Let_def)
qed

theorem isFilenameIgnored_diagnostics_witness:
  "isFilenameIgnored ignore_env ''/p/gen/b.ts'' = Inr (Some ''!gen'') \<and>
   ''!gen'' \<in> set (ignoreFileGlobPatterns \<lparr> resolveExtensions = None, ignore = Some [''gen''] \<rparr>) \<and>
   ''/p/gen/b.ts'' \<notin> set (globby ignore_env
      (fileGlobPatterns \<lparr> resolveExtensions = None, ignore = Some [''gen''] \<rparr> @ [''!gen'']) ''/p'') \<and>
   ''/p/gen/b.ts'' \<in> set (globby ignore_env
      (fileGlobPatterns \<lparr> resolveExtensions = None, ignore = Some [''gen''] \<rparr>) ''/p'') \<and>
   ''/p/a.ts'' \<in> set (globby ignore_env
      (fileGlobPatterns \<lparr> resolveExtensions = None, ignore = Some [''gen''] \<rparr> @
       ignoreFileGlobPatterns \<lparr> resolveExtensions = None, ignore = Some [''gen''] \<rparr>) ''/p'') \<and>
   isFilenameIgnored ignore_env ''/p/a.ts'' = Inr None"
proof -
  let ?cfg = "\<lparr> resolveExtensions = None, ignore = Some [''gen''] \<rparr>"
  have fr: "\<And>f. startsWith f ''/p/'' \<Longrightarrow> findRoot ignore_env f = Some ''/p''"
    by (simp add: ignore_env_def)
  have pc: "\<And>r. projectConfig ignore_env r = Inr ?cfg"
    by (simp add: ignore_env_def)
  have ret: "isFilenameIgnored ignore_env ''/p/gen/b.ts'' = Inr (Some ''!gen'')"
    by (simp add: isFilenameIgnored_def ignore_env_def fileGlobPatterns_def
        ignoreFileGlobPatterns_def DefaultExtensions_def)
  have yes: "''/p/a.ts'' \<in> set (globby ignore_env
      (fileGlobPatterns ?cfg @ ignoreFileGlobPatterns ?cfg) ''/p'')"
    by (simp add: ignore_env_def)
  have pre: "findRoot ignore_env ''/p/a.ts'' = Some ''/p'' \<and> projectConfig ignore_env ''/p'' = Inr ?cfg"
    by (simp add: ignore_env_def)
  from isFilenameIgnored_diagnostics [of ignore_env "''/p/gen/b.ts''" "''!gen''" "''/p''" ?cfg, THEN conjunct1] ret
  obtain r config where a: "findRoot ignore_env ''/p/gen/b.ts'' = Some r"
    and b: "projectConfig ignore_env r = Inr config"
    and c: "''!gen'' \<in> set (ignoreFileGlobPatterns config) \<and>
      ''/p/gen/b.ts'' \<notin> set (globby ignore_env (fileGlobPatterns config @ [''!gen'']) r) \<and>
      ''/p/gen/b.ts'' \<in> set (globby ignore_env (fileGlobPatterns config) r)"
    by blast
  from a have r: "r = ''/p''" by (simp add: fr)
  from b have cf: "config = ?cfg" by (simp add: pc)
  from isFilenameIgnored_diagnostics [of ignore_env "''/p/a.ts''" "''!gen''" "''/p''" ?cfg, THEN conjunct2] pre yes
  have second: "isFilenameIgnored ignore_env ''/p/a.ts'' = Inr None"
    by blast
  from ret c yes second show ?thesis unfolding r cf by blast
qed

section \<open>Properties: group uniqueness\<close>

lemma set_update_subset: "set (AList.update k v al) \<subseteq> insert (k, v) (set al)"
  by (induction al) auto

lemma cache_inv_empty: "cache_inv env []"
  by (simp add: cache_inv_def)

lemma addFile_inv:
  assumes inv: "cache_inv env groups" and fr: "findRoot env (filename file) = Some (root file)"
  shows "cache_inv env (addFile file groups)"
proof -
  define grp where "grp = (case map_of groups (root file) of None \<Rightarrow> [] | Some g \<Rightarrow> g)"
  define grp' where "grp' = AList.update (filename file) file grp"
  have add: "addFile file groups = AList.update (root file) grp' groups"
    by (simp add: addFile_def grp_def grp'_def)
  have old: "findRoot env fn = Some (root file)" if "(fn, cf) \<in> set grp" for fn cf
  proof (cases "map_of groups (root file)")
    case None
    with that show ?thesis by (simp add: grp_def)
  next
    case (Some g)
    then have "(root file, g) \<in> set groups" by (rule map_of_SomeD)
    with inv Some that show ?thesis unfolding cache_inv_def grp_def by auto
  qed
  have new: "findRoot env fn = Some (root file)" if "(fn, cf) \<in> set grp'" for fn cf
  proof -
    from that have "(fn, cf) = (filename file, file) \<or> (fn, cf) \<in> set grp"
      using set_update_subset [of "filename file" "file" grp] by (auto simp: grp'_def)
    with old fr show ?thesis by auto
  qed
  have "distinct (map fst (AList.update (root file) grp' groups))"
    using inv by (simp add: cache_inv_def distinct_update)
  moreover have "findRoot env fn = Some r"
    if "(r, files) \<in> set (AList.update (root file) grp' groups)" and "(fn, cf) \<in> set files"
    for r files fn cf
  proof -
    from that(1) have "(r, files) = (root file, grp') \<or> (r, files) \<in> set groups"
      using set_update_subset [of "root file" grp' groups] by auto
    then show ?thesis
    proof
      assume "(r, files) = (root file, grp')"
      with new that(2) show ?thesis by auto
    next
      assume "(r, files) \<in> set groups"
      with inv that(2) show ?thesis unfolding cache_inv_def by blast
    qed
  qed
  ultimately show ?thesis unfolding add cache_inv_def by blast
qed

lemma buildFile_inv:
  "cache_inv env (compiledFiles st) \<Longrightarrow> findRoot env fn = Some r \<Longrightarrow>
     cache_inv env (compiledFiles (snd (buildFile env fn r st)))"
  by (auto simp: buildFile_def Let_def addFile_inv split: sum.splits option.splits)

lemma buildFiles_inv:
  "cache_inv env (compiledFiles st) \<Longrightarrow> \<forall>f \<in> set fs. findRoot env f = Some r \<Longrightarrow>
     cache_inv env (compiledFiles (snd (buildFiles env fs r st)))"
proof (induction fs arbitrary: st)
  case Nil
  then show ?case by simp
next
  case (Cons f fs)
  from Cons.prems have "cache_inv env (compiledFiles (snd (buildFile env f r st)))"
    by (simp add: buildFile_inv)
  from Cons.IH [OF this] Cons.prems(2)
  have "cache_inv env (compiledFiles (snd (buildFiles env fs r (snd (buildFile env f r st)))))"
    by simp
  then show ?case
    by (cases "buildFile env f r st"; cases "buildFiles env fs r (snd (buildFile env f r st))") simp
qed

lemma buildGroup_inv:
  "no_nesting env \<Longrightarrow> cache_inv env (compiledFiles st) \<Longrightarrow>
     cache_inv env (compiledFiles (snd (buildGroup env fn st)))"
proof -
  assume nn: "no_nesting env" and inv: "cache_inv env (compiledFiles st)"
  show ?thesis
  proof (cases "getModule env fn")
    case (Inl e)
    with inv show ?thesis by (simp add: buildGroup_def)
  next
    case (Inr m)
    obtain r fileNames config where m: "m = (r, fileNames, config)" by (cases m) auto
    with nn Inr have "\<forall>f \<in> set fileNames. findRoot env f = Some r"
      unfolding no_nesting_def by blast
    from buildFiles_inv [OF inv this] Inr m show ?thesis
      by (auto simp: buildGroup_def split: prod.splits option.splits)
  qed
qed

lemma group'_Some:
  "group' groups fn = Some (r, fs) \<Longrightarrow> \<exists>files cf. (r, files) \<in> set groups \<and> (fn, cf) \<in> set files"
proof (induction groups fn rule: group'.induct)
  case (1 fn)
  then show ?case by simp
next
  case (2 r' files rest fn)
  show ?case
  proof (cases "map_of files fn")
    case None
    with 2 show ?thesis by auto
  next
    case (Some cf)
    then have "(fn, cf) \<in> set files" by (rule map_of_SomeD)
    moreover from Some "2.prems" have "r' = r" by simp
    ultimately show ?thesis by auto
  qed
qed

lemma compile_inv:
  assumes nn: "no_nesting env" and inv: "cache_inv env (compiledFiles st)"
  shows "cache_inv env (compiledFiles (snd (compile env fn st)))"
proof (cases "group' (compiledFiles st) fn")
  case None
  with buildGroup_inv [OF nn inv, of fn] show ?thesis
    by (auto simp: compile_def split: prod.splits option.splits)
next
  case (Some g)
  obtain r fs where g: "g = (r, fs)" by (cases g) auto
  from group'_Some [OF Some [unfolded g]] inv have "findRoot env fn = Some r"
    unfolding cache_inv_def by blast
  from buildFile_inv [OF inv this] Some g show ?thesis
    by (auto simp: compile_def split: prod.splits sum.splits)
qed

lemma apply_op_inv:
  "no_nesting env \<Longrightarrow> cache_inv env (compiledFiles st) \<Longrightarrow>
     cache_inv env (compiledFiles (apply_op env st op))"
  by (cases op) (simp_all add: compile_inv invalidateBuildSet_def rebuild_def cache_inv_empty)

lemma foldl_apply_op_inv:
  "no_nesting env \<Longrightarrow> cache_inv env (compiledFiles st) \<Longrightarrow>
     cache_inv env (compiledFiles (foldl (apply_op env) st ops))"
  by (induction ops arbitrary: st) (simp_all add: apply_op_inv)

lemma distinct_all_equal: "distinct xs \<Longrightarrow> \<forall>x \<in> set xs. x = a \<Longrightarrow> length xs \<le> 1"
  by (cases xs; cases "tl xs") auto

lemma cache_inv_unique:
  assumes "cache_inv env groups"
  shows "length (groups_containing groups fn) \<le> 1"
proof -
  have d: "distinct (groups_containing groups fn)"
    using assms by (simp add: cache_inv_def groups_containing_def distinct_map_filter)
  have mem: "findRoot env fn = Some x" if "x \<in> set (groups_containing groups fn)" for x
  proof -
    from that obtain files where f: "(x, files) \<in> set groups" and "map_of files fn \<noteq> None"
      by (auto simp: groups_containing_def)
    then obtain cf where "(fn, cf) \<in> set files" by (auto dest: map_of_SomeD)
    with f assms show ?thesis unfolding cache_inv_def by blast
  qed
  show ?thesis
  proof (cases "groups_containing groups fn")
    case Nil
    then show ?thesis by simp
  next
    case (Cons a as)
    then have "findRoot env fn = Some a" by (simp add: mem)
    with mem have "\<forall>x \<in> set (groups_containing groups fn). x = a" by auto
    with d show ?thesis by (rule distinct_all_equal)
  qed
qed

text \<open>
  Claim C4, as amended. Starting from the empty cache and running any sequence of
  \<open>compile\<close>, \<open>invalidateBuildSet\<close> and \<open>rebuild\<close> in a file system whose package roots do
  not nest inside what is enumerated, every source path is held by at most one group.
\<close>

theorem group_uniqueness_without_nesting:
  "no_nesting env \<Longrightarrow> length (groups_containing (compiledFiles (run_ops env ops)) P) \<le> 1"
  by (rule cache_inv_unique [of env])
     (simp add: run_ops_def foldl_apply_op_inv new_SwcCompiler_def cache_inv_empty)

text \<open>
  Claim C4 as stated fails where a package nests in another: compiling \<open>/a/b/y.ts\<close> first
  records it under its own root \<open>/a/b\<close>; compiling \<open>/a/x.ts\<close> then enumerates everything
  under \<open>/a\<close> and records \<open>/a/b/y.ts\<close> under \<open>/a\<close> as well.
\<close>

theorem group_uniqueness_counterexample:
  "groups_containing
     (compiledFiles (run_ops nested_env [Compile ''/a/b/y.ts'', Compile ''/a/x.ts'']))
     ''/a/b/y.ts'' = [''/a/b'', ''/a'']"
  by (simp add: run_ops_def new_SwcCompiler_def compile_def buildGroup_def getModule_def
      buildFile_def addFile_def groups_containing_def nested_env_def Let_def)

theorem group_uniqueness_without_nesting_witness:
  "no_nesting two_file_env \<and>
   groups_containing (compiledFiles (run_ops two_file_env
      [Compile ''/p/a.ts'', InvalidateBuildSet, Compile ''/p/b.ts'', Rebuild, Compile ''/p/a.ts'']))
      ''/p/a.ts'' = [''/p''] \<and>
   length (groups_containing (compiledFiles (run_ops two_file_env
      [Compile ''/p/a.ts'', InvalidateBuildSet, Compile ''/p/b.ts'', Rebuild, Compile ''/p/a.ts'']))
      ''/p/a.ts'') \<le> 1"
proof -
  have nn: "no_nesting two_file_env"
    by (auto simp: no_nesting_def getModule_def two_file_env_def Let_def split: if_splits)
  have ev: "groups_containing (compiledFiles (run_ops two_file_env
      [Compile ''/p/a.ts'', InvalidateBuildSet, Compile ''/p/b.ts'', Rebuild, Compile ''/p/a.ts'']))
      ''/p/a.ts'' = [''/p'']"
    by (simp add: run_ops_def new_SwcCompiler_def compile_def buildGroup_def getModule_def
      buildFile_def addFile_def groups_containing_def two_file_env_def Let_def
      invalidateBuildSet_def rebuild_def)
  from nn ev group_uniqueness_without_nesting [OF nn, of
      "[Compile ''/p/a.ts'', InvalidateBuildSet, Compile ''/p/b.ts'', Rebuild, Compile ''/p/a.ts'']"
      "''/p/a.ts''"]
  show ?thesis by blast
qed

section \<open>Properties: what a first compile builds\<close>










section \<open>Properties: the order of a flush\<close>




















section \<open>Properties: the debounced reload\<close>

lemma set_stage_debounce_inv:
  "debounce_inv p \<Longrightarrow> \<forall>e. s \<noteq> RejectedAtStart e \<Longrightarrow> debounce_inv (set_stage k s p)"
  by (auto simp: debounce_inv_def set_stage_def dest!: set_update_subset_insert [THEN subsetD])

lemma reloadNow_debounce_inv:
  assumes "debounce_inv p" and "debouncePending p"
  shows "debounce_inv (reloadNow (p\<lparr> debouncePending := False \<rparr>))"
proof -
  from assms obtain p0 rest where "paths (currentBatch p) = p0 # rest"
    by (cases "paths (currentBatch p)") (auto simp: debounce_inv_def)
  with assms(1) show ?thesis
    by (auto simp: debounce_inv_def reloadNow_def reload_message_def Let_def empty_batch_def)
qed

lemma project_step_debounce_inv:
  "debounce_inv p \<Longrightarrow> project_step p i = Some p' \<Longrightarrow> debounce_inv p'"
proof (cases i)
  case (EnqueueReload path req)
  assume "debounce_inv p" "project_step p i = Some p'"
  with EnqueueReload show ?thesis
    by (auto simp: debounce_inv_def enqueueReload_def)
next
  case DebounceFires
  assume "debounce_inv p" "project_step p i = Some p'"
  with DebounceFires show ?thesis
    by (auto simp: reloadNow_debounce_inv split: if_splits)
next
  case InvalidateBuildSetAndReload
  assume "debounce_inv p" "project_step p i = Some p'"
  with InvalidateBuildSetAndReload show ?thesis
    by (auto simp: debounce_inv_def invalidateBuildSetAndReload_def Let_def)
next
  case (InvalidateResolves k)
  assume a: "debounce_inv p" "project_step p i = Some p'"
  from a(1) have "debounce_inv (p\<lparr> history := history p @ [(k, InvalidateDone), (k, RebuildCalled)] \<rparr>)"
    by (simp add: debounce_inv_def)
  from set_stage_debounce_inv [OF this, of AwaitRebuild k] a(2) InvalidateResolves show ?thesis
    by (auto simp: after_invalidate_def split: if_splits)
next
  case (InvalidateRejects k e)
  assume "debounce_inv p" "project_step p i = Some p'"
  with InvalidateRejects show ?thesis
    by (auto simp: set_stage_debounce_inv split: if_splits)
next
  case (RebuildResolves k)
  assume a: "debounce_inv p" "project_step p i = Some p'"
  from a(1) have "debounce_inv (p\<lparr> history := history p @ [(k, RebuildDone), (k, RestartCalled)],
      supervisorOf := restart (supervisorOf p) \<rparr>)"
    by (simp add: debounce_inv_def)
  from set_stage_debounce_inv [OF this, of Restarted k] a(2) RebuildResolves show ?thesis
    by (auto simp: after_rebuild_def split: if_splits)
next
  case (RebuildRejects k e)
  assume "debounce_inv p" "project_step p i = Some p'"
  with RebuildRejects show ?thesis
    by (auto simp: set_stage_debounce_inv split: if_splits)
qed

lemma project_run_debounce_inv:
  "debounce_inv p \<Longrightarrow> project_run p is = Some p' \<Longrightarrow> debounce_inv p'"
proof (induction "is" arbitrary: p)
  case Nil
  then show ?case by simp
next
  case (Cons i "is")
  from Cons.prems(2) obtain p1 where s: "project_step p i = Some p1" and r: "project_run p1 is = Some p'"
    by (auto split: option.splits)
  from project_step_debounce_inv [OF Cons.prems(1) s] r show ?case by (rule Cons.IH)
qed

text \<open>
  Claim C10. In every run of the controller from its initial state, whenever the
  debounced reload can fire the batch holds at least one path, so the summary line is
  built without reading a missing element; and no flush of the run has failed on it.
\<close>

theorem debounced_reload_has_first_path:
  assumes "project_run (new_Project wr sv) ins = Some p"
  shows "(debouncePending p \<longrightarrow> (\<exists>m. reload_message (workspaceRoot p) (currentBatch p) = Inr m)) \<and>
     (\<forall>p'. project_step p DebounceFires = Some p' \<longrightarrow>
        paths (currentBatch p) \<noteq> [] \<and>
        (\<exists>m. reload_message (workspaceRoot p) (currentBatch p) = Inr m)) \<and>
     (\<forall>f \<in> set (flushes p). \<forall>e. stage f \<noteq> RejectedAtStart e)"
proof -
  have "debounce_inv (new_Project wr sv)"
    by (simp add: debounce_inv_def new_Project_def)
  from project_run_debounce_inv [OF this assms] have inv: "debounce_inv p" .
  have msg: "\<exists>m. reload_message (workspaceRoot p) (currentBatch p) = Inr m"
    if "paths (currentBatch p) \<noteq> []"
    using that by (cases "paths (currentBatch p)") (simp_all add: reload_message_def)
  from inv msg show ?thesis
    by (auto simp: debounce_inv_def split: if_splits)
qed

theorem debounced_reload_has_first_path_witness:
  "\<exists>p. project_run (new_Project ''/ws'' (new_Supervisor [''node'']))
          [EnqueueReload ''/ws/a.ts'' False, EnqueueReload ''/ws/b.ts'' True] = Some p \<and>
     debouncePending p \<and>
     reload_message (workspaceRoot p) (currentBatch p) =
       Inr ''/a.ts and 1 others changed, reinitializing and restarting ...'' \<and>
     (\<exists>p'. project_step p DebounceFires = Some p')"
proof -
  have "\<exists>p. project_run (new_Project ''/ws'' (new_Supervisor [''node'']))
          [EnqueueReload ''/ws/a.ts'' False, EnqueueReload ''/ws/b.ts'' True] = Some p \<and>
     debouncePending p \<and>
     reload_message (workspaceRoot p) (currentBatch p) =
       Inr ''/a.ts and 1 others changed, reinitializing and restarting ...''"
    by (simp add: new_Project_def new_Supervisor_def enqueueReload_def reload_message_def
        compact_join_def show_nat.simps digit_def empty_batch_def)
  then obtain p where
    run: "project_run (new_Project ''/ws'' (new_Supervisor [''node'']))
          [EnqueueReload ''/ws/a.ts'' False, EnqueueReload ''/ws/b.ts'' True] = Some p"
    and pend: "debouncePending p"
    and m: "reload_message (workspaceRoot p) (currentBatch p) =
       Inr ''/a.ts and 1 others changed, reinitializing and restarting ...''"
    by blast
  from pend have "\<exists>p'. project_step p DebounceFires = Some p'" by simp
  with debounced_reload_has_first_path [OF run] run pend m show ?thesis by blast
qed

section \<open>Properties: stop\<close>

text \<open>
  Claim C7, evaluated on a child that is running when \<open>stop()\<close> is called and has not
  exited 5000 ms later. \<open>stop()\<close> delivers SIGTERM, which sets the child's \<open>killed\<close>; the
  timer callback tests \<open>killed\<close>, not whether the child has exited, and so sends nothing:
  the child has received SIGTERM only and is still running. (The callback sends nothing
  either when the child has exited in between; and when there is no child at all, it
  throws.)
\<close>

theorem stop_timeout_on_live_child:
  "(case stop (restart (new_Supervisor [''app.js''])) of
      (sv1, captured) \<Rightarrow>
        captured = Some 0 \<and>
        map running (children sv1) = [True] \<and>
        map received (children sv1) = [[SIGTERM]] \<and>
        stop_timeout captured sv1 = Inr sv1 \<and>
        stop_timeout captured (child_exits 0 sv1) = Inr (child_exits 0 sv1)) \<and>
   (case stop (new_Supervisor [''app.js'']) of
      (sv1, captured) \<Rightarrow>
        stop_timeout captured sv1 =
          Inl (TypeError ''Cannot read properties of undefined (reading killed)''))"
  by (simp add: stop_def restart_def new_Supervisor_def kill_def stop_timeout_def child_exits_def)

section \<open>Properties: the routes\<close>

text \<open>
  Claim C5, as amended. When the compiler's \<open>compile\<close> or \<open>fileGroup\<close> throws while the
  route \<open>/compile\<close> is handled, the server logs the error and replies
  \<open>{ filenames: undefined }\<close>: the reply is not an error body, and the error goes to the
  log only.
\<close>

theorem compile_route_failure:
  assumes "fst (op_compile ops fn (compilerState s)) = Some e \<or>
     (fst (op_compile ops fn (compilerState s)) = None \<and>
      op_fileGroup ops fn (snd (op_compile ops fn (compilerState s))) = Inl e)"
  shows "fst (compile_route ops fn s) = JObject [(''filenames'', JUndefined)] \<and>
     \<not> error_body (fst (compile_route ops fn s)) \<and>
     serverLog (snd (compile_route ops fn s)) =
       serverLog s @ [LogError (''Error compiling file '' @ fn @ '':'') (Some e)]"
  using assms
  by (cases "op_compile ops fn (compilerState s)")
     (auto simp: compile_route_def ipc_compile_def error_body_def Let_def split: option.splits sum.splits)

theorem compile_route_failure_witness:
  "fst (op_compile (swc_ops broken_env) ''/q/x.ts''
          (compilerState (new_server_project new_SwcCompiler))) = Some find_root_error \<and>
   fst (compile_route (swc_ops broken_env) ''/q/x.ts'' (new_server_project new_SwcCompiler)) =
     JObject [(''filenames'', JUndefined)] \<and>
   serverLog (snd (compile_route (swc_ops broken_env) ''/q/x.ts'' (new_server_project new_SwcCompiler))) =
     [LogError ''Error compiling file /q/x.ts:'' (Some find_root_error)]"
proof -
  have thrown: "fst (op_compile (swc_ops broken_env) ''/q/x.ts''
          (compilerState (new_server_project new_SwcCompiler))) = Some find_root_error"
    by (simp add: swc_ops_def new_server_project_def new_SwcCompiler_def compile_def
        buildGroup_def getModule_def broken_env_def)
  have "serverLog (new_server_project new_SwcCompiler) = []"
    by (simp add: new_server_project_def)
  with thrown compile_route_failure [of "swc_ops broken_env" "''/q/x.ts''"
      "new_server_project new_SwcCompiler" find_root_error]
  show ?thesis by simp
qed

text \<open>
  Claim C5 as stated fails: the only source of \<open>/p\<close> does not transform. The compiler
  logs the transform's error and drops it (\<open>reportErrors\<close>), \<open>fileGroup\<close> then finds no
  group and throws, the server logs that, and the reply is \<open>{ filenames: undefined }\<close>.
\<close>

theorem compile_route_counterexample:
  "fst (compile_route (swc_ops broken_env) ''/p/a.ts'' (new_server_project new_SwcCompiler)) =
     JObject [(''filenames'', JUndefined)] \<and>
   \<not> error_body (fst (compile_route (swc_ops broken_env) ''/p/a.ts'' (new_server_project new_SwcCompiler))) \<and>
   swcLog (compilerState (snd (compile_route (swc_ops broken_env) ''/p/a.ts'' (new_server_project new_SwcCompiler)))) =
     [LogError [] (Some (Error ''Unexpected token''))] \<and>
   serverLog (snd (compile_route (swc_ops broken_env) ''/p/a.ts'' (new_server_project new_SwcCompiler))) =
     [LogError ''Error compiling file /p/a.ts:''
        (Some (Error ''Built output for file /p/a.ts not found. Is it outside the project directory?''))]"
  by (simp add: compile_route_def ipc_compile_def swc_ops_def new_server_project_def new_SwcCompiler_def
      compile_def buildGroup_def getModule_def buildFile_def fileGroup_def missingDestination_def
      isFilenameIgnored_def fileGlobPatterns_def ignoreFileGlobPatterns_def DefaultExtensions_def
      broken_env_def error_body_def Let_def)

text \<open>
  Claim C6, evaluated on a body that holds a path under \<open>node_modules\<close>: the route adds it
  to the watcher like any other path, while the handler of the supervisor's \<open>message\<close>
  event skips the same path.
\<close>

theorem file_required_adds_node_modules:
  "file_required_route [''/ws/node_modules/lodash/index.js'', ''/ws/src/a.ts'']
     (new_server_project new_SwcCompiler) =
     (JObject [(''status'', JString ''ok'')],
      \<lparr> compilerState = new_SwcCompiler,
        watcher = Some [''/ws/node_modules/lodash/index.js'', ''/ws/src/a.ts''],
        serverLog = [] \<rparr>) \<and>
   on_supervisor_message (Some ''/ws/node_modules/lodash/index.js'') [] = []"
  by (simp add: file_required_route_def new_server_project_def watcher_add_def on_supervisor_message_def)

section \<open>Properties: the result of a bridged call\<close>

lemma finish_call_cases:
  "(case fst (finish_call sent status inbox) of
      Inr v \<Rightarrow> (status = WaitOk \<or> status = WaitNotEqual) \<and>
        (\<exists>r. inbox = r # snd (finish_call sent status inbox) \<and> resp_id r = sent \<and>
             \<not> truthy (resp_error r) \<and> v = resp_result r)
    | Inl (Rethrown e) \<Rightarrow> (status = WaitOk \<or> status = WaitNotEqual) \<and>
        (\<exists>r. inbox = r # snd (finish_call sent status inbox) \<and> resp_id r = sent \<and>
             truthy e \<and> e = resp_error r)
    | Inl (Internal m) \<Rightarrow>
        status = WaitTimedOut \<or> (status \<noteq> WaitOk \<and> status \<noteq> WaitNotEqual) \<or> inbox = [] \<or>
        (\<exists>r. inbox = r # snd (finish_call sent status inbox) \<and> resp_id r \<noteq> sent))"
  by (cases inbox) (simp_all add: finish_call_def)

lemma finish_call_fatal:
  "status = WaitTimedOut \<or> (status \<noteq> WaitOk \<and> status \<noteq> WaitNotEqual) \<or> inbox = [] \<or>
     (\<exists>r rest. inbox = r # rest \<and> resp_id r \<noteq> sent) \<Longrightarrow>
   \<exists>m. fst (finish_call sent status inbox) = Inl (Internal m)"
  by (cases inbox) (auto simp: finish_call_def)

text \<open>
  Claim C2. When the main thread comes back from \<open>Atomics.wait\<close> for a call and runs the
  rest of \<open>call\<close>, the call ends in exactly one of three ways. It returns the result of
  one response taken from the port, whose id is the call's id (the status was \<open>ok\<close> or
  \<open>not-equal\<close>, the response's error is falsy). It throws the error of such a response.
  Or it throws an internal error; and it does throw an internal error whenever the status
  is \<open>timed-out\<close>, the status is neither \<open>ok\<close> nor \<open>not-equal\<close>, no message is there, or the
  message's id differs from the call's.
\<close>

theorem sync_call_outcome:
  assumes "main s = Woken c status" and "bridge_step s MainReceive = Some s'"
  shows "\<exists>out. outcomes s' = outcomes s @ [(call_id c, out)] \<and> main s' = Idle \<and>
     (case out of
        Inr v \<Rightarrow> (status = WaitOk \<or> status = WaitNotEqual) \<and>
          (\<exists>r. main_inbox s = r # main_inbox s' \<and> resp_id r = call_id c \<and>
               \<not> truthy (resp_error r) \<and> v = resp_result r)
      | Inl (Rethrown e) \<Rightarrow> (status = WaitOk \<or> status = WaitNotEqual) \<and>
          (\<exists>r. main_inbox s = r # main_inbox s' \<and> resp_id r = call_id c \<and>
               truthy e \<and> e = resp_error r)
      | Inl (Internal m) \<Rightarrow>
          status = WaitTimedOut \<or> (status \<noteq> WaitOk \<and> status \<noteq> WaitNotEqual) \<or>
          main_inbox s = [] \<or>
          (\<exists>r. main_inbox s = r # main_inbox s' \<and> resp_id r \<noteq> call_id c)) \<and>
     (status = WaitTimedOut \<or> (status \<noteq> WaitOk \<and> status \<noteq> WaitNotEqual) \<or>
      main_inbox s = [] \<or> (\<exists>r rest. main_inbox s = r # rest \<and> resp_id r \<noteq> call_id c)
        \<longrightarrow> (\<exists>m. out = Inl (Internal m)))"
proof -
  let ?fc = "finish_call (call_id c) status (main_inbox s)"
  from assms have s': "s' = s\<lparr> main := Idle, main_inbox := snd ?fc,
      outcomes := outcomes s @ [(call_id c, fst ?fc)] \<rparr>"
    by (cases ?fc) simp
  have a: "outcomes s' = outcomes s @ [(call_id c, fst ?fc)]" and b: "main s' = Idle"
    and i: "main_inbox s' = snd ?fc"
    by (simp_all add: s')
  from finish_call_cases [where status = status and inbox = "main_inbox s" and sent = "call_id c"]
       finish_call_fatal [where status = status and inbox = "main_inbox s" and sent = "call_id c"] a b
  show ?thesis unfolding i by blast
qed

lemmas bridge_eval =
  new_bridge_def task_at_def advance_def slot_def atomics_add_def response_of_def
  finish_call_def first_call_def Let_def

lemma answered_run_state:
  "\<exists>s. bridge_run new_bridge answered_run = Some s \<and> main s = Woken first_call WaitOk \<and>
     main_inbox s = [\<lparr> resp_id = 0, resp_result = JsObject ''files'', resp_error = JsUndefined \<rparr>] \<and>
     outcomes s = []"
  by (simp add: answered_run_def bridge_eval)

theorem sync_call_outcome_witness:
  "\<exists>s s'. bridge_run new_bridge answered_run = Some s \<and> main s = Woken first_call WaitOk \<and>
     bridge_step s MainReceive = Some s' \<and>
     main_inbox s = [\<lparr> resp_id = 0, resp_result = JsObject ''files'', resp_error = JsUndefined \<rparr>] \<and>
     main_inbox s' = [] \<and>
     outcomes s' = [(call_id first_call, Inr (JsObject ''files''))]"
proof -
  from answered_run_state obtain s where
    run: "bridge_run new_bridge answered_run = Some s" and m: "main s = Woken first_call WaitOk"
    and inbox: "main_inbox s = [\<lparr> resp_id = 0, resp_result = JsObject ''files'', resp_error = JsUndefined \<rparr>]"
    and out: "outcomes s = []"
    by blast
  from m obtain s' where st: "bridge_step s MainReceive = Some s'"
    by (cases "finish_call (call_id first_call) WaitOk (main_inbox s)") simp
  from sync_call_outcome [OF m st] obtain res where
    o: "outcomes s' = outcomes s @ [(call_id first_call, res)]"
    and c: "(case res of
        Inr v \<Rightarrow> (WaitOk = WaitOk \<or> WaitOk = WaitNotEqual) \<and>
          (\<exists>r. main_inbox s = r # main_inbox s' \<and> resp_id r = call_id first_call \<and>
               \<not> truthy (resp_error r) \<and> v = resp_result r)
      | Inl (Rethrown e) \<Rightarrow> (WaitOk = WaitOk \<or> WaitOk = WaitNotEqual) \<and>
          (\<exists>r. main_inbox s = r # main_inbox s' \<and> resp_id r = call_id first_call \<and>
               truthy e \<and> e = resp_error r)
      | Inl (Internal m) \<Rightarrow>
          WaitOk = WaitTimedOut \<or> (WaitOk \<noteq> WaitOk \<and> WaitOk \<noteq> WaitNotEqual) \<or>
          main_inbox s = [] \<or>
          (\<exists>r. main_inbox s = r # main_inbox s' \<and> resp_id r \<noteq> call_id first_call))"
    by blast
  have "res = Inr (JsObject ''files'') \<and> main_inbox s' = []"
  proof (cases res)
    case (Inr v)
    with c inbox show ?thesis by auto
  next
    case (Inl t)
    with c inbox show ?thesis by (cases t) (auto simp: first_call_def)
  qed
  with o out have o: "outcomes s' = [(call_id first_call, Inr (JsObject ''files''))]"
    and "main_inbox s' = []" by simp_all
  with run m st inbox show ?thesis by blast
qed

section \<open>Properties: store, then notify\<close>

subsection \<open>The log\<close>

lemma task_events_append: "task_events i (l @ l') = task_events i l @ task_events i l'"
  by (simp add: task_events_def)

lemma task_events_none: "\<forall>e \<in> set l. fst e \<noteq> i \<Longrightarrow> task_events i l = []"
  by (induction l) (auto simp: task_events_def)

lemma log_inv_frame:
  "log_inv s \<Longrightarrow> tasks s' = tasks s \<Longrightarrow> worker_log s' = worker_log s \<Longrightarrow> log_inv s'"
  by (simp add: log_inv_def)

lemma log_inv_advance:
  assumes inv: "log_inv s" and i: "i < length (tasks s)"
    and nxt: "steps_done pc = steps_done (snd (tasks s ! i)) @ [pc]"
    and t: "tasks s' = (tasks s)[i := (fst (tasks s ! i), pc)]"
    and l: "worker_log s' = worker_log s @ [(i, pc)]"
  shows "log_inv s'"
proof -
  have 1: "\<forall>e \<in> set (worker_log s'). fst e < length (tasks s')"
    using inv i by (auto simp: log_inv_def t l)
  have 2: "task_events j (worker_log s') = steps_done (snd (tasks s' ! j))"
    if j: "j < length (tasks s')" for j
  proof -
    from j have "j < length (tasks s)" by (simp add: t)
    with inv have old: "task_events j (worker_log s) = steps_done (snd (tasks s ! j))"
      by (simp add: log_inv_def)
    show ?thesis
    proof (cases "j = i")
      case True
      with old i nxt show ?thesis
        by (simp add: t l task_events_append) (simp add: task_events_def)
    next
      case False
      with old show ?thesis
        by (simp add: t l task_events_append) (simp add: task_events_def)
    qed
  qed
  from 1 2 show ?thesis by (simp add: log_inv_def)
qed

lemma log_inv_receive:
  assumes inv: "log_inv s" and t: "tasks s' = tasks s @ [(c, Running)]"
    and l: "worker_log s' = worker_log s"
  shows "log_inv s'"
proof -
  have 1: "\<forall>e \<in> set (worker_log s'). fst e < length (tasks s')"
    using inv by (auto simp: log_inv_def t l)
  have 2: "task_events j (worker_log s') = steps_done (snd (tasks s' ! j))"
    if j: "j < length (tasks s')" for j
  proof (cases "j = length (tasks s)")
    case True
    have "task_events (length (tasks s)) (worker_log s) = []"
      using inv by (intro task_events_none) (auto simp: log_inv_def)
    with True show ?thesis by (simp add: t l)
  next
    case False
    with j have "j < length (tasks s)" by (simp add: t)
    with inv show ?thesis by (simp add: log_inv_def t l nth_append)
  qed
  from 1 2 show ?thesis by (simp add: log_inv_def)
qed

lemma bridge_step_log_inv:
  "log_inv s \<Longrightarrow> bridge_step s a = Some s' \<Longrightarrow> log_inv s'"
proof (cases a)
  case (MainPost args)
  assume "log_inv s" "bridge_step s a = Some s'"
  with MainPost show ?thesis
    by (auto simp: Let_def split: if_splits elim!: log_inv_frame)
next
  case MainWait
  assume "log_inv s" "bridge_step s a = Some s'"
  with MainWait show ?thesis
    by (auto split: main_pc.splits elim!: log_inv_frame)
next
  case MainTimeout
  assume "log_inv s" "bridge_step s a = Some s'"
  with MainTimeout show ?thesis
    by (auto split: main_pc.splits elim!: log_inv_frame)
next
  case MainReceive
  assume "log_inv s" "bridge_step s a = Some s'"
  with MainReceive show ?thesis
    by (auto split: main_pc.splits prod.splits elim!: log_inv_frame)
next
  case WorkerReceive
  assume "log_inv s" "bridge_step s a = Some s'"
  with WorkerReceive show ?thesis
    by (auto split: list.splits elim!: log_inv_receive)
next
  case (WorkerPost i r)
  assume "log_inv s" "bridge_step s a = Some s'"
  with WorkerPost show ?thesis
    by (auto simp: task_at_def advance_def split: if_splits
        intro!: log_inv_advance [where s = s and i = i and pc = PostedResponse])
next
  case (WorkerAdd i)
  assume "log_inv s" "bridge_step s a = Some s'"
  with WorkerAdd show ?thesis
    by (auto simp: task_at_def advance_def split: if_splits
        intro!: log_inv_advance [where s = s and i = i and pc = Added])
next
  case (WorkerNotify i)
  assume "log_inv s" "bridge_step s a = Some s'"
  with WorkerNotify show ?thesis
    by (auto simp: task_at_def advance_def split: if_splits
        intro!: log_inv_advance [where s = s and i = i and pc = Notified])
qed

subsection \<open>The slots\<close>

lemma map_fst_update: "i < length ts \<Longrightarrow> map fst (ts[i := (fst (ts ! i), pc)]) = map fst ts"
  by (simp add: map_update list_update_same_conv)

lemma slot_inv_task_buffer:
  assumes "slot_inv s" and "i < length (tasks s)"
  shows "task_buffer s i < length (buffers s)" and "buffers s ! task_buffer s i \<noteq> []"
proof -
  from assms(2) have "fst (tasks s ! i) \<in> set (all_calls s)"
    by (auto simp: all_calls_def intro!: image_eqI [where x = "tasks s ! i"])
  with assms(1) show "task_buffer s i < length (buffers s)" and "buffers s ! task_buffer s i \<noteq> []"
    by (auto simp: slot_inv_def task_buffer_def)
qed

lemma slot_inv_tasks_distinct:
  assumes "slot_inv s" and "i < length (tasks s)" and "j < length (tasks s)"
    and "task_buffer s j = task_buffer s i"
  shows "j = i"
proof -
  from assms(1) have "distinct (map sharedBuffer (map fst (tasks s)))"
    by (simp add: slot_inv_def all_calls_def)
  with assms(2-4) show ?thesis
    by (simp add: distinct_conv_nth task_buffer_def) metis
qed

lemma slot_inv_inbox_distinct:
  assumes "slot_inv s" and "i < length (tasks s)" and "c \<in> set (worker_inbox s)"
  shows "sharedBuffer c \<noteq> task_buffer s i"
proof
  assume eq: "sharedBuffer c = task_buffer s i"
  from assms(1) have dj: "set (map sharedBuffer (map fst (tasks s))) \<inter>
      set (map sharedBuffer (worker_inbox s)) = {}"
    by (simp add: slot_inv_def all_calls_def)
  from assms(2) have "map sharedBuffer (map fst (tasks s)) ! i = task_buffer s i"
    by (simp add: task_buffer_def)
  moreover from assms(2) have "i < length (map sharedBuffer (map fst (tasks s)))" by simp
  ultimately have a: "task_buffer s i \<in> set (map sharedBuffer (map fst (tasks s)))"
    by (metis nth_mem)
  from assms(3) have "sharedBuffer c \<in> set (map sharedBuffer (worker_inbox s))" by simp
  with eq have b: "task_buffer s i \<in> set (map sharedBuffer (worker_inbox s))" by simp
  from dj a b show False by (simp add: disjoint_iff)
qed

lemma slot_inv_post:
  assumes inv: "slot_inv s" and i: "i < length (tasks s)" and pc: "snd (tasks s ! i) = Running"
    and t: "tasks s' = (tasks s)[i := (fst (tasks s ! i), PostedResponse)]"
    and w: "worker_inbox s' = worker_inbox s" and b: "buffers s' = buffers s" and m: "main s' = main s"
  shows "slot_inv s'"
proof -
  have ac: "all_calls s' = all_calls s"
    using i by (simp add: all_calls_def t w map_fst_update)
  have tb: "task_buffer s' j = task_buffer s j" for j
    using i by (cases "j = i") (simp_all add: task_buffer_def t)
  have sl: "slot s' r = slot s r" for r
    by (simp add: slot_def b)
  have len: "length (tasks s') = length (tasks s)" by (simp add: t)
  have pcs: "snd (tasks s' ! j) = (if j = i then PostedResponse else snd (tasks s ! j))"
    if "j < length (tasks s)" for j
    using that by (simp add: t nth_list_update)
  from inv have 4: "\<forall>j < length (tasks s).
      slot s (task_buffer s j) = (if snd (tasks s ! j) = Added \<or> snd (tasks s ! j) = Notified then 1 else 0)"
    and 5: "\<forall>c j. main s = Waiting c \<longrightarrow> j < length (tasks s) \<longrightarrow> task_buffer s j = sharedBuffer c \<longrightarrow>
         snd (tasks s ! j) \<noteq> Notified"
    by (simp_all add: slot_inv_def)
  have n4: "\<forall>j < length (tasks s').
      slot s' (task_buffer s' j) = (if snd (tasks s' ! j) = Added \<or> snd (tasks s' ! j) = Notified then 1 else 0)"
    using 4 pc by (auto simp: len tb sl pcs)
  have n5: "\<forall>c j. main s' = Waiting c \<longrightarrow> j < length (tasks s') \<longrightarrow> task_buffer s' j = sharedBuffer c \<longrightarrow>
         snd (tasks s' ! j) \<noteq> Notified"
    using 5 by (auto simp: len tb m pcs)
  from inv n4 n5 show ?thesis
    unfolding slot_inv_def ac w b m sl by blast
qed

lemma slot_inv_add:
  assumes inv: "slot_inv s" and i: "i < length (tasks s)" and pc: "snd (tasks s ! i) = PostedResponse"
    and t: "tasks s' = (tasks s)[i := (fst (tasks s ! i), Added)]"
    and w: "worker_inbox s' = worker_inbox s"
    and b: "buffers s' = atomics_add (task_buffer s i) (buffers s)" and m: "main s' = main s"
  shows "slot_inv s'"
proof -
  note tbi = slot_inv_task_buffer [OF inv i]
  have ac: "all_calls s' = all_calls s"
    using i by (simp add: all_calls_def t w map_fst_update)
  have tb: "task_buffer s' j = task_buffer s j" for j
    using i by (cases "j = i") (simp_all add: task_buffer_def t)
  have lenb: "length (buffers s') = length (buffers s)"
    by (simp add: b atomics_add_def)
  have ne: "buffers s' ! r \<noteq> []" if "buffers s ! r \<noteq> []" and "r < length (buffers s)" for r
    using that by (cases "r = task_buffer s i") (simp_all add: b atomics_add_def)
  have sl_other: "slot s' r = slot s r" if "r \<noteq> task_buffer s i" for r
    using that by (simp add: slot_def b atomics_add_def)
  have sl_i: "slot s' (task_buffer s i) = slot s (task_buffer s i) + 1"
    using tbi by (simp add: slot_def b atomics_add_def)
  have len: "length (tasks s') = length (tasks s)" by (simp add: t)
  have pcs: "snd (tasks s' ! j) = (if j = i then Added else snd (tasks s ! j))"
    if "j < length (tasks s)" for j
    using that by (simp add: t nth_list_update)
  from inv have 1: "\<forall>c \<in> set (all_calls s). sharedBuffer c < length (buffers s) \<and> buffers s ! sharedBuffer c \<noteq> []"
    and 2: "distinct (map sharedBuffer (all_calls s))"
    and 3: "\<forall>c \<in> set (worker_inbox s). slot s (sharedBuffer c) = 0"
    and 4: "\<forall>j < length (tasks s).
      slot s (task_buffer s j) = (if snd (tasks s ! j) = Added \<or> snd (tasks s ! j) = Notified then 1 else 0)"
    and 5: "\<forall>c j. main s = Waiting c \<longrightarrow> j < length (tasks s) \<longrightarrow> task_buffer s j = sharedBuffer c \<longrightarrow>
         snd (tasks s ! j) \<noteq> Notified"
    by (simp_all add: slot_inv_def)
  have n1: "\<forall>c \<in> set (all_calls s'). sharedBuffer c < length (buffers s') \<and> buffers s' ! sharedBuffer c \<noteq> []"
    using 1 ne by (simp add: ac lenb)
  have n3: "\<forall>c \<in> set (worker_inbox s'). slot s' (sharedBuffer c) = 0"
    using 3 slot_inv_inbox_distinct [OF inv i] by (simp add: w sl_other)
  have n4: "slot s' (task_buffer s' j) = (if snd (tasks s' ! j) = Added \<or> snd (tasks s' ! j) = Notified then 1 else 0)"
    if j: "j < length (tasks s')" for j
  proof (cases "j = i")
    case True
    from 4 i pc have "slot s (task_buffer s i) = 0" by simp
    with True i show ?thesis by (simp add: tb sl_i pcs)
  next
    case False
    from j have j': "j < length (tasks s)" by (simp add: len)
    with False slot_inv_tasks_distinct [OF inv i j'] have "task_buffer s j \<noteq> task_buffer s i" by blast
    with 4 j' False show ?thesis by (simp add: tb sl_other pcs)
  qed
  have n5: "\<forall>c j. main s' = Waiting c \<longrightarrow> j < length (tasks s') \<longrightarrow> task_buffer s' j = sharedBuffer c \<longrightarrow>
         snd (tasks s' ! j) \<noteq> Notified"
    using 5 by (auto simp: len tb m pcs)
  from n1 2 n3 n4 n5 show ?thesis
    unfolding slot_inv_def ac by blast
qed

lemma slot_inv_notify:
  assumes inv: "slot_inv s" and i: "i < length (tasks s)" and pc: "snd (tasks s ! i) = Added"
    and t: "tasks s' = (tasks s)[i := (fst (tasks s ! i), Notified)]"
    and w: "worker_inbox s' = worker_inbox s" and b: "buffers s' = buffers s"
    and m: "main s' = (case main s of
                         Waiting c \<Rightarrow> if sharedBuffer c = task_buffer s i then Woken c WaitOk else Waiting c
                       | x \<Rightarrow> x)"
  shows "slot_inv s'"
proof -
  have ac: "all_calls s' = all_calls s"
    using i by (simp add: all_calls_def t w map_fst_update)
  have tb: "task_buffer s' j = task_buffer s j" for j
    using i by (cases "j = i") (simp_all add: task_buffer_def t)
  have sl: "slot s' r = slot s r" for r
    by (simp add: slot_def b)
  have len: "length (tasks s') = length (tasks s)" by (simp add: t)
  have pcs: "snd (tasks s' ! j) = (if j = i then Notified else snd (tasks s ! j))"
    if "j < length (tasks s)" for j
    using that by (simp add: t nth_list_update)
  from inv have 4: "\<forall>j < length (tasks s).
      slot s (task_buffer s j) = (if snd (tasks s ! j) = Added \<or> snd (tasks s ! j) = Notified then 1 else 0)"
    and 5: "\<forall>c j. main s = Waiting c \<longrightarrow> j < length (tasks s) \<longrightarrow> task_buffer s j = sharedBuffer c \<longrightarrow>
         snd (tasks s ! j) \<noteq> Notified"
    by (simp_all add: slot_inv_def)
  have n4: "\<forall>j < length (tasks s').
      slot s' (task_buffer s' j) = (if snd (tasks s' ! j) = Added \<or> snd (tasks s' ! j) = Notified then 1 else 0)"
    using 4 pc by (auto simp: len tb sl pcs)
  have n5: "snd (tasks s' ! j) \<noteq> Notified"
    if w: "main s' = Waiting c" and j: "j < length (tasks s')" and e: "task_buffer s' j = sharedBuffer c"
    for c j
  proof -
    from w m have mc: "main s = Waiting c" and nb: "sharedBuffer c \<noteq> task_buffer s i"
      by (auto split: main_pc.splits if_splits)
    from e nb have "j \<noteq> i" by (auto simp: tb)
    with 5 mc j e show ?thesis by (simp add: len tb pcs)
  qed
  from inv n4 n5 show ?thesis
    unfolding slot_inv_def ac w b sl by blast
qed

lemma slot_inv_receive:
  assumes inv: "slot_inv s" and wi: "worker_inbox s = c # rest"
    and t: "tasks s' = tasks s @ [(c, Running)]"
    and w: "worker_inbox s' = rest" and b: "buffers s' = buffers s" and m: "main s' = main s"
  shows "slot_inv s'"
proof -
  have ac: "all_calls s' = all_calls s"
    by (simp add: all_calls_def t w wi)
  have sl: "slot s' r = slot s r" for r
    by (simp add: slot_def b)
  have tb: "task_buffer s' j = (if j < length (tasks s) then task_buffer s j else sharedBuffer c)"
    if "j < length (tasks s')" for j
    using that by (auto simp: task_buffer_def t nth_append less_Suc_eq)
  have pcs: "snd (tasks s' ! j) = (if j < length (tasks s) then snd (tasks s ! j) else Running)"
    if "j < length (tasks s')" for j
    using that by (auto simp: t nth_append less_Suc_eq)
  from inv have 3: "\<forall>c \<in> set (worker_inbox s). slot s (sharedBuffer c) = 0"
    and 4: "\<forall>j < length (tasks s).
      slot s (task_buffer s j) = (if snd (tasks s ! j) = Added \<or> snd (tasks s ! j) = Notified then 1 else 0)"
    and 5: "\<forall>c j. main s = Waiting c \<longrightarrow> j < length (tasks s) \<longrightarrow> task_buffer s j = sharedBuffer c \<longrightarrow>
         snd (tasks s ! j) \<noteq> Notified"
    by (simp_all add: slot_inv_def)
  have n3: "\<forall>c \<in> set (worker_inbox s'). slot s' (sharedBuffer c) = 0"
    using 3 by (simp add: w wi sl)
  have n4: "\<forall>j < length (tasks s').
      slot s' (task_buffer s' j) = (if snd (tasks s' ! j) = Added \<or> snd (tasks s' ! j) = Notified then 1 else 0)"
    using 3 4 by (auto simp: tb pcs sl wi)
  have n5: "\<forall>c j. main s' = Waiting c \<longrightarrow> j < length (tasks s') \<longrightarrow> task_buffer s' j = sharedBuffer c \<longrightarrow>
         snd (tasks s' ! j) \<noteq> Notified"
    using 5 by (auto simp: tb pcs m)
  from inv n3 n4 n5 show ?thesis
    unfolding slot_inv_def ac b by blast
qed

lemma slot_inv_main_post:
  assumes inv: "slot_inv s"
    and c: "sharedBuffer c = length (buffers s)"
    and t: "tasks s' = tasks s" and w: "worker_inbox s' = worker_inbox s @ [c]"
    and b: "buffers s' = buffers s @ [[0, 0]]" and m: "main s' = Posted c"
  shows "slot_inv s'"
proof -
  from inv have o1: "\<forall>c \<in> set (all_calls s). sharedBuffer c < length (buffers s) \<and> buffers s ! sharedBuffer c \<noteq> []"
    and o2: "distinct (map sharedBuffer (all_calls s))"
    and o3: "\<forall>c \<in> set (worker_inbox s). slot s (sharedBuffer c) = 0"
    and o4: "\<forall>j < length (tasks s).
      slot s (task_buffer s j) = (if snd (tasks s ! j) = Added \<or> snd (tasks s ! j) = Notified then 1 else 0)"
    by (simp_all add: slot_inv_def)
  have ac: "all_calls s' = all_calls s @ [c]"
    by (simp add: all_calls_def t w)
  have tb: "task_buffer s' j = task_buffer s j" for j
    by (simp add: task_buffer_def t)
  have sl_old: "slot s' r = slot s r" if "r < length (buffers s)" for r
    using that by (simp add: slot_def b nth_append)
  have sl_new: "slot s' (length (buffers s)) = 0"
    by (simp add: slot_def b)
  have n1: "\<forall>x \<in> set (all_calls s'). sharedBuffer x < length (buffers s') \<and> buffers s' ! sharedBuffer x \<noteq> []"
    using o1 c by (auto simp: ac b nth_append)
  have "length (buffers s) \<notin> sharedBuffer ` set (all_calls s)"
    using o1 by auto
  with o2 c have n2: "distinct (map sharedBuffer (all_calls s'))"
    by (simp add: ac)
  have inb: "\<forall>x \<in> set (worker_inbox s). sharedBuffer x < length (buffers s)"
    using o1 by (simp add: all_calls_def)
  have n3: "\<forall>x \<in> set (worker_inbox s'). slot s' (sharedBuffer x) = 0"
    using o3 inb c by (auto simp: w sl_old sl_new)
  have n4: "\<forall>j < length (tasks s').
      slot s' (task_buffer s' j) = (if snd (tasks s' ! j) = Added \<or> snd (tasks s' ! j) = Notified then 1 else 0)"
    using o4 slot_inv_task_buffer(1) [OF inv] by (simp add: t tb sl_old)
  have n5: "\<forall>c j. main s' = Waiting c \<longrightarrow> j < length (tasks s') \<longrightarrow> task_buffer s' j = sharedBuffer c \<longrightarrow>
         snd (tasks s' ! j) \<noteq> Notified"
    by (simp add: m)
  from n1 n2 n3 n4 n5 show ?thesis
    unfolding slot_inv_def by blast
qed

lemma slot_inv_main_wait:
  assumes inv: "slot_inv s"
    and t: "tasks s' = tasks s" and w: "worker_inbox s' = worker_inbox s"
    and b: "buffers s' = buffers s"
    and m: "main s' = (if slot s (sharedBuffer c) \<noteq> 0 then Woken c WaitNotEqual else Waiting c)"
  shows "slot_inv s'"
proof -
  have ac: "all_calls s' = all_calls s"
    by (simp add: all_calls_def t w)
  have tb: "task_buffer s' j = task_buffer s j" for j
    by (simp add: task_buffer_def t)
  have sl: "slot s' r = slot s r" for r
    by (simp add: slot_def b)
  from inv have o4: "\<forall>j < length (tasks s).
      slot s (task_buffer s j) = (if snd (tasks s ! j) = Added \<or> snd (tasks s ! j) = Notified then 1 else 0)"
    by (simp add: slot_inv_def)
  have n5: "snd (tasks s' ! j) \<noteq> Notified"
    if wt: "main s' = Waiting c'" and j: "j < length (tasks s')" and e: "task_buffer s' j = sharedBuffer c'"
    for c' j
  proof
    assume fin: "snd (tasks s' ! j) = Notified"
    from wt m have cc: "c' = c" and z: "slot s (sharedBuffer c) = 0"
      by (auto split: if_splits)
    from o4 j fin have "slot s (task_buffer s j) = 1" by (simp add: t)
    with e cc z show False by (simp add: tb)
  qed
  from inv n5 show ?thesis
    unfolding slot_inv_def ac w b sl tb t by blast
qed

lemma slot_inv_main_frame:
  assumes inv: "slot_inv s"
    and t: "tasks s' = tasks s" and w: "worker_inbox s' = worker_inbox s"
    and b: "buffers s' = buffers s" and m: "\<forall>c. main s' \<noteq> Waiting c"
  shows "slot_inv s'"
proof -
  have ac: "all_calls s' = all_calls s"
    by (simp add: all_calls_def t w)
  have tb: "task_buffer s' j = task_buffer s j" for j
    by (simp add: task_buffer_def t)
  have sl: "slot s' r = slot s r" for r
    by (simp add: slot_def b)
  from inv m show ?thesis
    unfolding slot_inv_def ac w b sl tb t by blast
qed

lemma bridge_step_slot_inv:
  "slot_inv s \<Longrightarrow> bridge_step s a = Some s' \<Longrightarrow> slot_inv s'"
proof (cases a)
  case (MainPost args)
  assume inv: "slot_inv s" and st: "bridge_step s a = Some s'"
  let ?c = "\<lparr> call_id = idCounter s, call_args = args, sharedBuffer = length (buffers s) \<rparr>"
  from st MainPost have s': "s' = s\<lparr> idCounter := idCounter s + 1, buffers := buffers s @ [[0, 0]],
      worker_inbox := worker_inbox s @ [?c], main := Posted ?c \<rparr>"
    by (simp add: Let_def split: if_splits)
  show ?thesis
    by (rule slot_inv_main_post [OF inv, where c = ?c]) (simp_all add: s')
next
  case MainWait
  assume inv: "slot_inv s" and st: "bridge_step s a = Some s'"
  from st MainWait obtain c where
    s': "s' = s\<lparr> main := (if slot s (sharedBuffer c) \<noteq> 0 then Woken c WaitNotEqual else Waiting c) \<rparr>"
    by (auto split: main_pc.splits)
  show ?thesis
    by (rule slot_inv_main_wait [OF inv, where c = c]) (simp_all add: s')
next
  case MainTimeout
  assume inv: "slot_inv s" and st: "bridge_step s a = Some s'"
  from st MainTimeout obtain c where s': "s' = s\<lparr> main := Woken c WaitTimedOut \<rparr>"
    by (auto split: main_pc.splits)
  show ?thesis
    by (rule slot_inv_main_frame [OF inv]) (simp_all add: s')
next
  case MainReceive
  assume inv: "slot_inv s" and st: "bridge_step s a = Some s'"
  from st MainReceive obtain inbox' outs where
    s': "s' = s\<lparr> main := Idle, main_inbox := inbox', outcomes := outs \<rparr>"
    by (auto split: main_pc.splits prod.splits)
  show ?thesis
    by (rule slot_inv_main_frame [OF inv]) (simp_all add: s')
next
  case WorkerReceive
  assume inv: "slot_inv s" and st: "bridge_step s a = Some s'"
  from st WorkerReceive obtain c rest where wi: "worker_inbox s = c # rest"
    and s': "s' = s\<lparr> worker_inbox := rest, tasks := tasks s @ [(c, Running)] \<rparr>"
    by (auto split: list.splits)
  show ?thesis
    by (rule slot_inv_receive [OF inv wi]) (simp_all add: s')
next
  case (WorkerPost i r)
  assume inv: "slot_inv s" and st: "bridge_step s a = Some s'"
  from st WorkerPost have i: "i < length (tasks s)" and pc: "snd (tasks s ! i) = Running"
    and s': "s' = advance i PostedResponse
        (s\<lparr> main_inbox := main_inbox s @ [response_of (fst (tasks s ! i)) r] \<rparr>)"
    by (auto simp: task_at_def split: if_splits)
  show ?thesis
    by (rule slot_inv_post [OF inv i pc]) (simp_all add: s' advance_def)
next
  case (WorkerAdd i)
  assume inv: "slot_inv s" and st: "bridge_step s a = Some s'"
  from st WorkerAdd have i: "i < length (tasks s)" and pc: "snd (tasks s ! i) = PostedResponse"
    and s': "s' = advance i Added
        (s\<lparr> buffers := atomics_add (sharedBuffer (fst (tasks s ! i))) (buffers s) \<rparr>)"
    by (auto simp: task_at_def split: if_splits)
  show ?thesis
    by (rule slot_inv_add [OF inv i pc]) (simp_all add: s' advance_def task_buffer_def)
next
  case (WorkerNotify i)
  assume inv: "slot_inv s" and st: "bridge_step s a = Some s'"
  from st WorkerNotify have i: "i < length (tasks s)" and pc: "snd (tasks s ! i) = Added"
    and s': "s' = advance i Notified
        (s\<lparr> main := (case main s of
                        Waiting c \<Rightarrow>
                          if sharedBuffer c = sharedBuffer (fst (tasks s ! i))
                          then Woken c WaitOk else Waiting c
                      | m \<Rightarrow> m) \<rparr>)"
    by (auto simp: task_at_def split: if_splits)
  show ?thesis
    by (rule slot_inv_notify [OF inv i pc])
       (simp_all add: s' advance_def task_buffer_def split: main_pc.splits)
qed

lemma bridge_run_inv:
  "slot_inv s \<Longrightarrow> log_inv s \<Longrightarrow> bridge_run s as = Some s' \<Longrightarrow> slot_inv s' \<and> log_inv s'"
proof (induction as arbitrary: s)
  case Nil
  then show ?case by simp
next
  case (Cons a as)
  from Cons.prems(3) obtain s1 where st: "bridge_step s a = Some s1" and r: "bridge_run s1 as = Some s'"
    by (auto split: option.splits)
  from bridge_step_slot_inv [OF Cons.prems(1) st] bridge_step_log_inv [OF Cons.prems(2) st] r
  show ?case by (rule Cons.IH)
qed

lemma new_bridge_inv: "slot_inv new_bridge \<and> log_inv new_bridge"
  by (simp add: slot_inv_def log_inv_def new_bridge_def all_calls_def)

lemma steps_done_prefix: "prefix (steps_done pc) [PostedResponse, Added, Notified]"
  by (cases pc) simp_all

text \<open>
  Claim C3. In every interleaving of the two threads: each task of the worker posts its
  response, then adds to the slot, then notifies, in this order; each call gets a buffer
  that no earlier call refers to, with both slots zero; a wait that begins when the
  call's task has already added (or has finished) finds the slot changed and returns
  \<open>not-equal\<close> without sleeping; and the main thread is never left asleep on a call whose
  task has notified.
\<close>

theorem bridge_store_then_notify:
  assumes "bridge_run new_bridge acts = Some s"
  shows "(\<forall>i < length (tasks s).
            prefix (task_events i (worker_log s)) [PostedResponse, Added, Notified]) \<and>
     (\<forall>args s'. bridge_step s (MainPost args) = Some s' \<longrightarrow>
        (\<exists>c. main s' = Posted c \<and> sharedBuffer c = length (buffers s) \<and>
             sharedBuffer c \<notin> sharedBuffer ` set (all_calls s) \<and>
             buffers s' ! sharedBuffer c = [0, 0])) \<and>
     (\<forall>c pc s'. main s = Posted c \<and> (c, pc) \<in> set (tasks s) \<and> (pc = Added \<or> pc = Notified) \<and>
        bridge_step s MainWait = Some s' \<longrightarrow> main s' = Woken c WaitNotEqual) \<and>
     (\<forall>c. main s = Waiting c \<longrightarrow> (c, Notified) \<notin> set (tasks s))"
proof -
  from new_bridge_inv bridge_run_inv [OF _ _ assms]
  have sinv: "slot_inv s" and linv: "log_inv s" by blast+
  have order: "\<forall>i < length (tasks s).
      prefix (task_events i (worker_log s)) [PostedResponse, Added, Notified]"
    using linv by (simp add: log_inv_def steps_done_prefix)
  have fresh: "\<exists>c. main s' = Posted c \<and> sharedBuffer c = length (buffers s) \<and>
             sharedBuffer c \<notin> sharedBuffer ` set (all_calls s) \<and>
             buffers s' ! sharedBuffer c = [0, 0]"
    if "bridge_step s (MainPost args) = Some s'" for args s'
  proof -
    from sinv have "length (buffers s) \<notin> sharedBuffer ` set (all_calls s)"
      by (auto simp: slot_inv_def)
    with that show ?thesis
      by (auto simp: Let_def split: if_splits)
  qed
  have early: "main s' = Woken c WaitNotEqual"
    if m: "main s = Posted c" and mem: "(c, pc) \<in> set (tasks s)" and pc: "pc = Added \<or> pc = Notified"
      and st: "bridge_step s MainWait = Some s'"
    for c pc s'
  proof -
    from mem obtain i where i: "i < length (tasks s)" and ti: "tasks s ! i = (c, pc)"
      by (auto simp: in_set_conv_nth)
    with sinv pc have "slot s (sharedBuffer c) = 1"
      by (auto simp: slot_inv_def task_buffer_def)
    with m st show ?thesis by auto
  qed
  have awake: "(c, Notified) \<notin> set (tasks s)" if m: "main s = Waiting c" for c
  proof
    assume "(c, Notified) \<in> set (tasks s)"
    then obtain i where i: "i < length (tasks s)" and ti: "tasks s ! i = (c, Notified)"
      by (auto simp: in_set_conv_nth)
    from sinv m i have "task_buffer s i = sharedBuffer c \<longrightarrow> snd (tasks s ! i) \<noteq> Notified"
      unfolding slot_inv_def by blast
    with ti show False by (simp add: task_buffer_def)
  qed
  from order fresh early awake show ?thesis by blast
qed

lemma early_run_state:
  "\<exists>s. bridge_run new_bridge early_run = Some s \<and> main s = Posted first_call \<and>
     tasks s = [(first_call, Notified)] \<and>
     worker_log s = [(0, PostedResponse), (0, Added), (0, Notified)] \<and>
     main_inbox s = [\<lparr> resp_id = 0, resp_result = JsObject ''files'', resp_error = JsUndefined \<rparr>]"
  by (simp add: early_run_def bridge_eval)

theorem bridge_store_then_notify_witness:
  "\<exists>s s'. bridge_run new_bridge early_run = Some s \<and> main s = Posted first_call \<and>
     (first_call, Notified) \<in> set (tasks s) \<and>
     worker_log s = [(0, PostedResponse), (0, Added), (0, Notified)] \<and>
     bridge_step s MainWait = Some s' \<and> main s' = Woken first_call WaitNotEqual"
proof -
  from early_run_state obtain s where
    run: "bridge_run new_bridge early_run = Some s" and m: "main s = Posted first_call"
    and t: "tasks s = [(first_call, Notified)]"
    and l: "worker_log s = [(0, PostedResponse), (0, Added), (0, Notified)]"
    by blast
  from t have mem: "(first_call, Notified) \<in> set (tasks s)" by simp
  from m obtain s' where st: "bridge_step s MainWait = Some s'" by simp
  from bridge_store_then_notify [OF run] m mem st
  have "main s' = Woken first_call WaitNotEqual" by blast
  with run m mem l st show ?thesis by blast
qed

end
